theory Spec2Isabelle
  imports Complex_Main "HOL-Library.Word" "HOL-Library.Sublist"
begin

unbundle bit_operations_syntax

section \<open>Data model of the decoder (midiplayer.c)\<close>

text \<open>
  C integer types are words of their width: \<open>+\<close> and \<open>-\<close> wrap, \<open>\<le>\<close> and \<open><\<close> compare
  unsigned. A C \<open>int\<close> is a 32-bit word read through \<open>sint\<close>; its conversion to a 64-bit
  unsigned type is the sign extension \<open>scast\<close>. Signed overflow wraps (two's complement).
\<close>

type_synonym uint8_t = "8 word"
type_synonym uint16_t = "16 word"
type_synonym uint32_t = "32 word"
type_synonym uint64_t = "64 word"
type_synonym size_t = "64 word"
type_synonym c_int = "32 word"

text \<open>
  Memory accesses are checked: a read at an index outside the allocated block, or through
  a null pointer, is a fault and ends the computation.
\<close>

datatype fault = OutOfBounds | NullPointer

text \<open>
  \<open>TrackData\<close>. The block behind \<open>data\<close> is a byte list whose length is the allocated
  size (\<open>None\<close> is the null pointer); \<open>long_msg\<close> is the scratch block.
\<close>

record TrackData =
  data :: "uint8_t list option"
  long_msg :: "uint8_t list"
  tick :: c_int
  offset :: size_t
  length_t :: size_t
  message :: uint32_t
  temp :: uint32_t
  long_msg_len :: size_t
  long_msg_capacity :: size_t
  data_capacity :: size_t

definition rd :: "uint8_t list \<Rightarrow> size_t \<Rightarrow> fault + uint8_t" where
  "rd d i = (if unat i < length d then Inr (d ! unat i) else Inl OutOfBounds)"

subsection \<open>decode_variable_length, update_tick\<close>

text \<open>The body of the do-while loop, entered with the accumulated \<open>result\<close>.\<close>

function decode_loop :: "TrackData \<Rightarrow> c_int \<Rightarrow> fault + (c_int \<times> TrackData)" where
  "decode_loop track result =
     (case data track of
        None \<Rightarrow> Inl NullPointer
      | Some d \<Rightarrow>
          (case rd d (offset track) of
             Inl e \<Rightarrow> Inl e
           | Inr byte \<Rightarrow>
               let track' = track\<lparr>offset := offset track + 1\<rparr>;
                   result' = push_bit 7 result OR ucast (byte AND 0x7F)
               in if byte AND 0x80 \<noteq> 0 \<and> offset track' < length_t track'
                  then decode_loop track' result'
                  else Inr (result', track')))"
  by pat_completeness auto
termination
proof (relation "measure (\<lambda>(track, result). unat (length_t track - 1 - offset track))")
  show "wf (measure (\<lambda>(track, result). unat (length_t track - 1 - offset track)))"
    by simp
next
  fix track :: TrackData and result :: c_int and d and byte :: uint8_t and track' result'
  assume tr: "track' = track\<lparr>offset := offset track + 1\<rparr>"
    and cont: "byte AND 0x80 \<noteq> 0 \<and> offset track' < length_t track'"
  have ne: "length_t track - 1 - offset track \<noteq> 0"
  proof
    assume "length_t track - 1 - offset track = 0"
    then have "length_t track = offset track + 1"
      by (simp add: algebra_simps)
    with tr cont show False
      by simp
  qed
  have eq: "length_t track' - 1 - offset track' = (length_t track - 1 - offset track) - 1"
    using tr by simp
  have dec: "unat (w - 1) < unat w" if "w \<noteq> 0" for w :: size_t
    using that by (simp add: unat_minus_one unat_gt_0)
  have "unat ((length_t track - 1 - offset track) - 1) < unat (length_t track - 1 - offset track)"
    by (rule dec [OF ne])
  then have "unat (length_t track' - 1 - offset track') < unat (length_t track - 1 - offset track)"
    by (simp only: eq)
  then show "((track', result'), (track, result))
      \<in> measure (\<lambda>(track, result). unat (length_t track - 1 - offset track))"
    by (simp only: in_measure prod.case)
qed

declare decode_loop.simps [simp del]

definition decode_variable_length :: "TrackData \<Rightarrow> fault + (c_int \<times> TrackData)" where
  "decode_variable_length track =
     (if offset track \<ge> length_t track then Inr (0, track)
      else decode_loop track 0)"

definition update_tick :: "TrackData \<Rightarrow> fault + TrackData" where
  "update_tick track =
     (case decode_variable_length track of
        Inl e \<Rightarrow> Inl e
      | Inr (n, track') \<Rightarrow> Inr (track'\<lparr>tick := tick track' + n\<rparr>))"

subsection \<open>update_command, update_message\<close>

definition update_command :: "TrackData \<Rightarrow> fault + TrackData" where
  "update_command track =
     (if length_t track = 0 then Inr track
      else case data track of
        None \<Rightarrow> Inr track
      | Some d \<Rightarrow>
          (case rd d (offset track) of
             Inl e \<Rightarrow> Inl e
           | Inr temp' \<Rightarrow>
               if temp' \<ge> 0x80
               then Inr (track\<lparr>offset := offset track + 1, message := ucast temp'\<rparr>)
               else Inr track))"

text \<open>
  The branches of \<open>update_message\<close>: two data bytes
  (\<open>data[offset] << 8 | data[offset + 1] << 16\<close>), one data byte, and the long form of
  meta and SysEx messages.
\<close>

definition two_data_bytes :: "uint8_t list \<Rightarrow> TrackData \<Rightarrow> fault + TrackData" where
  "two_data_bytes d track =
     (case rd d (offset track) of
        Inl e \<Rightarrow> Inl e
      | Inr b0 \<Rightarrow>
          (case rd d (offset track + 1) of
             Inl e \<Rightarrow> Inl e
           | Inr b1 \<Rightarrow>
               Inr (track\<lparr>temp := push_bit 8 (ucast b0) OR push_bit 16 (ucast b1),
                           offset := offset track + 2\<rparr>)))"

definition one_data_byte :: "uint8_t list \<Rightarrow> TrackData \<Rightarrow> fault + TrackData" where
  "one_data_byte d track =
     (case rd d (offset track) of
        Inl e \<Rightarrow> Inl e
      | Inr b0 \<Rightarrow>
          Inr (track\<lparr>temp := push_bit 8 (ucast b0), offset := offset track + 1\<rparr>))"

text \<open>
  \<open>realloc(long_msg, n)\<close> keeps the old bytes and is taken to succeed; the bytes it adds
  are all overwritten by the \<open>memcpy\<close> that follows, which copies \<open>n\<close> bytes from
  \<open>&data[offset]\<close> and faults when source or destination is shorter than \<open>n\<close>.
\<close>

definition realloc_long_msg :: "TrackData \<Rightarrow> TrackData" where
  "realloc_long_msg track =
     (if long_msg_capacity track < long_msg_len track
      then track\<lparr>long_msg := take (unat (long_msg_len track))
                    (long_msg track @ replicate (unat (long_msg_len track)) 0),
                 long_msg_capacity := long_msg_len track\<rparr>
      else track)"

definition memcpy_long_msg :: "uint8_t list \<Rightarrow> TrackData \<Rightarrow> fault + TrackData" where
  "memcpy_long_msg d track =
     (let n = unat (long_msg_len track); off = unat (offset track)
      in if n = 0 then Inr track
         else if off + n \<le> length d \<and> n \<le> length (long_msg track)
         then Inr (track\<lparr>long_msg := take n (drop off d) @ drop n (long_msg track)\<rparr>)
         else Inl OutOfBounds)"

definition long_message :: "uint8_t \<Rightarrow> uint8_t list \<Rightarrow> TrackData \<Rightarrow> fault + TrackData" where
  "long_message msg_type d track =
     (case (if msg_type = 0xFF
            then (case rd d (offset track) of
                    Inl e \<Rightarrow> Inl e
                  | Inr b0 \<Rightarrow> Inr (push_bit 8 (ucast b0)))
            else Inr 0) of
        Inl e \<Rightarrow> Inl e
      | Inr tmp \<Rightarrow>
          (case decode_variable_length (track\<lparr>temp := tmp, offset := offset track + 1\<rparr>) of
             Inl e \<Rightarrow> Inl e
           | Inr (n, track1) \<Rightarrow>
               let track2 = realloc_long_msg (track1\<lparr>long_msg_len := scast n\<rparr>)
               in (case memcpy_long_msg d track2 of
                     Inl e \<Rightarrow> Inl e
                   | Inr track3 \<Rightarrow>
                       Inr (track3\<lparr>offset := offset track3 + long_msg_len track3\<rparr>))))"

definition update_message :: "TrackData \<Rightarrow> fault + TrackData" where
  "update_message track =
     (if length_t track = 0 then Inr track
      else case data track of
        None \<Rightarrow> Inr track
      | Some d \<Rightarrow>
          let msg_type = (ucast (message track AND 0xFF) :: uint8_t)
          in (case (if msg_type < 0xC0 then two_data_bytes d track
                    else if msg_type < 0xE0 then one_data_byte d track
                    else if msg_type < 0xF0 then two_data_bytes d track
                    else if msg_type = 0xFF \<or> msg_type = 0xF0 then long_message msg_type d track
                    else Inr track) of
                Inl e \<Rightarrow> Inl e
              | Inr track' \<Rightarrow> Inr (track'\<lparr>message := message track' OR temp track'\<rparr>)))"

subsection \<open>The tempo computation of process_meta_event\<close>

text \<open>
  A \<open>double\<close> is a finite rational, positive infinity or a NaN (the operands here are
  never negative). \<open>round_double\<close> rounds a positive rational to the nearest number with
  a 53-bit significand, ties to even; the quotients of the tempo computation lie far
  inside the normal range, so exponent limits play no part.
\<close>

datatype double = Finite rat | PosInf | NaN

definition round_half_even :: "rat \<Rightarrow> int" where
  "round_half_even q =
     (let f = \<lfloor>q\<rfloor>; r = q - of_int f
      in if r < 1 / 2 then f else if 1 / 2 < r then f + 1
         else if even f then f else f + 1)"

fun scale_up :: "nat \<Rightarrow> rat \<Rightarrow> int \<Rightarrow> rat \<times> int" where
  "scale_up 0 q e = (q, e)"
| "scale_up (Suc n) q e = (if q < 2 ^ 52 then scale_up n (q * 2) (e - 1) else (q, e))"

fun scale_down :: "nat \<Rightarrow> rat \<Rightarrow> int \<Rightarrow> rat \<times> int" where
  "scale_down 0 q e = (q, e)"
| "scale_down (Suc n) q e = (if 2 ^ 53 \<le> q then scale_down n (q / 2) (e + 1) else (q, e))"

definition round_double :: "rat \<Rightarrow> rat" where
  "round_double q =
     (if q \<le> 0 then 0
      else case scale_up 1100 q 0 of (q1, e1) \<Rightarrow>
           case scale_down 1100 q1 e1 of (m, e) \<Rightarrow>
             if 0 \<le> e then of_int (round_half_even m) * 2 ^ nat e
             else of_int (round_half_even m) / 2 ^ nat (- e))"

definition double_of_uint64 :: "uint64_t \<Rightarrow> rat" where
  "double_of_uint64 w = round_double (of_int (uint w))"

definition double_of_uint16 :: "uint16_t \<Rightarrow> rat" where
  "double_of_uint16 w = of_int (uint w)"

definition double_div :: "rat \<Rightarrow> rat \<Rightarrow> double" where
  "double_div a b =
     (if b = 0 then (if a = 0 then NaN else PosInf) else Finite (round_double (a / b)))"

fun double_less :: "double \<Rightarrow> rat \<Rightarrow> bool" where
  "double_less (Finite a) b = (a < b)"
| "double_less PosInf b = False"
| "double_less NaN b = False"

definition process_meta_event ::
  "TrackData \<Rightarrow> double \<Rightarrow> uint64_t \<Rightarrow> uint16_t \<Rightarrow> fault + (TrackData \<times> double \<times> uint64_t)" where
  "process_meta_event track multiplier bpm time_div =
     (let meta_type = (ucast (drop_bit 8 (message track) AND 0xFF) :: uint8_t)
      in if meta_type = 0x51
         then (case rd (long_msg track) 0 of
                 Inl e \<Rightarrow> Inl e
               | Inr b0 \<Rightarrow>
                   (case rd (long_msg track) 1 of
                      Inl e \<Rightarrow> Inl e
                    | Inr b1 \<Rightarrow>
                        (case rd (long_msg track) 2 of
                           Inl e \<Rightarrow> Inl e
                         | Inr b2 \<Rightarrow>
                             let v = (push_bit 16 (ucast b0) OR push_bit 8 (ucast b1) OR ucast b2 :: c_int);
                                 bpm' = (scast v :: uint64_t);
                                 m = double_div (double_of_uint64 (bpm' * 10)) (double_of_uint16 time_div);
                                 m' = (if double_less m 1 then Finite 1 else m)
                             in Inr (track, m', bpm'))))
         else if meta_type = 0x2F
         then Inr (track\<lparr>data := None, length_t := 0\<rparr>, multiplier, bpm)
         else Inr (track, multiplier, bpm))"

subsection \<open>play_midi\<close>

text \<open>
  A callback invocation, with its arguments in the order of the call expression.
  A callback parameter of \<open>play_midi\<close> is \<open>True\<close> when the pointer is not null.
\<close>

datatype call = NoteOnCall uint8_t uint8_t uint8_t | NoteOffCall uint8_t uint8_t

text \<open>The fields that the dispatch code reads off a decoded message.\<close>

definition status_byte :: "uint32_t \<Rightarrow> uint8_t" where
  "status_byte msg = ucast (msg AND 0xFF)"

definition channel :: "uint32_t \<Rightarrow> uint8_t" where
  "channel msg = status_byte msg AND 0x0F"

definition command :: "uint32_t \<Rightarrow> uint8_t" where
  "command msg = status_byte msg AND 0xF0"

definition note_of :: "uint32_t \<Rightarrow> uint8_t" where
  "note_of msg = ucast (drop_bit 8 msg AND 0xFF)"

definition velocity :: "uint32_t \<Rightarrow> uint8_t" where
  "velocity msg = ucast (drop_bit 16 msg AND 0xFF)"

definition note_calls :: "bool \<Rightarrow> bool \<Rightarrow> uint32_t \<Rightarrow> call list" where
  "note_calls note_on_callback note_off_callback msg =
     (if command msg = 0x90
      then (if velocity msg > 0
            then (if note_on_callback
                  then [NoteOnCall (velocity msg) (channel msg) (note_of msg)] else [])
            else (if note_off_callback then [NoteOffCall (channel msg) (note_of msg)] else []))
      else if command msg = 0x80
      then (if note_off_callback then [NoteOffCall (channel msg) (note_of msg)] else [])
      else [])"

text \<open>
  The locals of \<open>play_midi\<close> that decoding and scheduling depend on, with two logs:
  \<open>calls\<close> records every callback invocation with the value of the global tick at that
  moment, \<open>delays\<close> records \<open>delta_tick\<close> and the multiplier at every evaluation of
  \<open>old = delta_tick * multiplier\<close>. The wall clock, the drift and the sleep read none of
  these fields and write none of them; they are left out.

  Two more fields observe the run and are read by nothing in it. \<open>call_ticks\<close> records,
  for every callback invocation and in the same order as \<open>calls\<close>, the tick of the
  event's own track at that moment: \<open>tracks[i].tick\<close>, converted to \<open>uint64_t\<close> as
  the scheduler's comparisons convert it. \<open>tick_decreased\<close> becomes true when an
  \<open>update_tick\<close> in the loop leaves a track with a smaller tick, so converted, than it
  had.
\<close>

record player =
  tracks :: "TrackData list"
  tick_p :: uint64_t
  multiplier_p :: double
  bpm_p :: uint64_t
  note_on_count :: uint64_t
  calls :: "(uint64_t \<times> call) list"
  delays :: "(uint64_t \<times> double) list"
  call_ticks :: "uint64_t list"
  tick_decreased :: bool

datatype status = Finished | OutOfFuel | Fault fault

text \<open>One pass through the body of the inner while loop, for track \<open>i\<close>.\<close>

definition play_event :: "uint16_t \<Rightarrow> bool \<Rightarrow> bool \<Rightarrow> nat \<Rightarrow> player \<Rightarrow> fault option \<times> player" where
  "play_event time_div note_on_callback note_off_callback i s =
     (case update_command (tracks s ! i) of
        Inl e \<Rightarrow> (Some e, s)
      | Inr t1 \<Rightarrow>
          (case update_message t1 of
             Inl e \<Rightarrow> (Some e, s)
           | Inr t2 \<Rightarrow>
               let msg = message t2;
                   s1 = s\<lparr>tracks := (tracks s)[i := t2],
                          note_on_count :=
                            (if command msg = 0x90 then note_on_count s + 1 else note_on_count s),
                          calls := calls s @
                            map (Pair (tick_p s)) (note_calls note_on_callback note_off_callback msg),
                          call_ticks := call_ticks s @
                            map (\<lambda>c. scast (tick t2)) (note_calls note_on_callback note_off_callback msg)\<rparr>
               in (case (if command msg \<noteq> 0x90 \<and> command msg \<noteq> 0x80 \<and> status_byte msg = 0xFF
                         then process_meta_event t2 (multiplier_p s1) (bpm_p s1) time_div
                         else Inr (t2, multiplier_p s1, bpm_p s1)) of
                     Inl e \<Rightarrow> (Some e, s1)
                   | Inr (t3, m, b) \<Rightarrow>
                       let s2 = s1\<lparr>tracks := (tracks s1)[i := t3], multiplier_p := m, bpm_p := b\<rparr>
                       in (case (if data t3 \<noteq> None then update_tick t3 else Inr t3) of
                             Inl e \<Rightarrow> (Some e, s2)
                           | Inr t4 \<Rightarrow>
                               (None, s2\<lparr>tracks := (tracks s2)[i := t4],
                                         tick_decreased := (tick_decreased s2
                                           \<or> (scast (tick t4) :: uint64_t) < scast (tick t3))\<rparr>)))))"

definition due :: "nat \<Rightarrow> player \<Rightarrow> bool" where
  "due i s = (data (tracks s ! i) \<noteq> None \<and> (scast (tick (tracks s ! i)) :: uint64_t) \<le> tick_p s)"

text \<open>
  The inner while loop. It need not end, so it runs on fuel: \<open>OutOfFuel\<close> means that the
  condition still held when the fuel was used up.
\<close>

fun drain_track :: "nat \<Rightarrow> uint16_t \<Rightarrow> bool \<Rightarrow> bool \<Rightarrow> nat \<Rightarrow> player \<Rightarrow> status \<times> player" where
  "drain_track 0 time_div on_cb off_cb i s = (if due i s then (OutOfFuel, s) else (Finished, s))"
| "drain_track (Suc n) time_div on_cb off_cb i s =
     (if due i s
      then (case play_event time_div on_cb off_cb i s of
              (Some e, s') \<Rightarrow> (Fault e, s')
            | (None, s') \<Rightarrow> drain_track n time_div on_cb off_cb i s')
      else (Finished, s))"

text \<open>The for loop over the tracks; \<open>active\<close> is the array \<open>active_tracks\<close> built so far.\<close>

fun for_tracks ::
  "nat \<Rightarrow> uint16_t \<Rightarrow> bool \<Rightarrow> bool \<Rightarrow> nat list \<Rightarrow> player \<Rightarrow> nat list \<Rightarrow> status \<times> player \<times> nat list" where
  "for_tracks n time_div on_cb off_cb [] s active = (Finished, s, active)"
| "for_tracks n time_div on_cb off_cb (i # is) s active =
     (if data (tracks s ! i) \<noteq> None
      then (case drain_track n time_div on_cb off_cb i s of
              (Finished, s') \<Rightarrow>
                for_tracks n time_div on_cb off_cb is s'
                  (if data (tracks s' ! i) \<noteq> None then active @ [i] else active)
            | (st, s') \<Rightarrow> (st, s', active))
      else for_tracks n time_div on_cb off_cb is s active)"

text \<open>The loop that finds the next tick, started from \<open>UINT64_MAX\<close>.\<close>

definition next_delta_tick :: "player \<Rightarrow> nat list \<Rightarrow> uint64_t" where
  "next_delta_tick s active =
     foldl (\<lambda>delta_tick idx.
              if data (tracks s ! idx) \<noteq> None
              then (let track_delta = (scast (tick (tracks s ! idx)) :: uint64_t) - tick_p s
                    in if track_delta < delta_tick then track_delta else delta_tick)
              else delta_tick)
       (- 1) active"

text \<open>
  The outer while loop: \<open>m\<close> bounds its iterations, \<open>n\<close> those of every inner loop.
\<close>

fun play_loop :: "nat \<Rightarrow> nat \<Rightarrow> uint16_t \<Rightarrow> bool \<Rightarrow> bool \<Rightarrow> player \<Rightarrow> status \<times> player" where
  "play_loop 0 n time_div on_cb off_cb s = (OutOfFuel, s)"
| "play_loop (Suc m) n time_div on_cb off_cb s =
     (case for_tracks n time_div on_cb off_cb [0 ..< length (tracks s)] s [] of
        (Finished, s', active) \<Rightarrow>
          if active = [] then (Finished, s')
          else (let delta_tick = next_delta_tick s' active
                in play_loop m n time_div on_cb off_cb
                     (s'\<lparr>tick_p := tick_p s' + delta_tick,
                         delays := delays s' @ [(delta_tick, multiplier_p s')]\<rparr>))
      | (st, s', active) \<Rightarrow> (st, s'))"

definition init_player :: "TrackData list \<Rightarrow> player" where
  "init_player trks =
     \<lparr>tracks = trks, tick_p = 0, multiplier_p = Finite 0, bpm_p = 500000,
      note_on_count = 0, calls = [], delays = [], call_ticks = [], tick_decreased = False\<rparr>"

definition play_midi :: "nat \<Rightarrow> TrackData list \<Rightarrow> uint16_t \<Rightarrow> bool \<Rightarrow> bool \<Rightarrow> status \<times> player" where
  "play_midi fuel trks time_div note_on_callback note_off_callback =
     play_loop fuel fuel time_div note_on_callback note_off_callback (init_player trks)"

text \<open>
  What \<open>load_midi_file\<close> does for one track chunk with payload \<open>bytes\<close>: the buffer is
  allocated with the chunk's length, the scratch block with 256 bytes (its first contents
  \<open>scratch\<close> are whatever \<open>malloc\<close> returned), and the first delta-time is decoded.
\<close>

definition load_track :: "uint8_t list \<Rightarrow> uint8_t list \<Rightarrow> fault + TrackData" where
  "load_track bytes scratch =
     update_tick \<lparr>data = Some bytes, long_msg = scratch, tick = 0, offset = 0,
                  length_t = of_nat (length bytes), message = 0, temp = 0, long_msg_len = 0,
                  long_msg_capacity = 256, data_capacity = of_nat (length bytes)\<rparr>"

text \<open>
  The track loop of \<open>load_midi_file\<close> over the payloads of the \<open>MTrk\<close> chunks, and the
  sequence of the (commented-out) \<open>main\<close>: load, then play.
\<close>

fun load_tracks :: "uint8_t list list \<Rightarrow> uint8_t list \<Rightarrow> fault + TrackData list" where
  "load_tracks [] scratch = Inr []"
| "load_tracks (bytes # chunks) scratch =
     (case load_track bytes scratch of
        Inl e \<Rightarrow> Inl e
      | Inr track \<Rightarrow>
          (case load_tracks chunks scratch of
             Inl e \<Rightarrow> Inl e
           | Inr trks \<Rightarrow> Inr (track # trks)))"

definition load_and_play ::
  "nat \<Rightarrow> uint8_t list list \<Rightarrow> uint8_t list \<Rightarrow> uint16_t \<Rightarrow> bool \<Rightarrow> bool \<Rightarrow> status \<times> player" where
  "load_and_play fuel chunks scratch time_div note_on_callback note_off_callback =
     (case load_tracks chunks scratch of
        Inl e \<Rightarrow> (Fault e, init_player [])
      | Inr trks \<Rightarrow> play_midi fuel trks time_div note_on_callback note_off_callback)"

section \<open>The event queue (main.c)\<close>

text \<open>
  The queue's array is a function from indices; \<open>head\<close> and \<open>tail\<close> are C ints that stay
  far below overflow. \<open>c_mod\<close> is C's remainder, which truncates towards zero. Each
  operation runs under the queue's mutex, so an execution of producer and consumer is a
  sequence of whole operations.
\<close>

definition RING_BUFFER_SIZE :: int where
  "RING_BUFFER_SIZE = 13414000"

definition c_mod :: "int \<Rightarrow> int \<Rightarrow> int" where
  "c_mod a b = sgn a * (\<bar>a\<bar> mod \<bar>b\<bar>)"

record 'e EventQueue =
  events :: "int \<Rightarrow> 'e"
  head :: int
  tail :: int

definition init_event_queue :: "(int \<Rightarrow> 'e) \<Rightarrow> 'e EventQueue" where
  "init_event_queue arr = \<lparr>events = arr, head = 0, tail = 0\<rparr>"

definition queue_push :: "'e \<Rightarrow> 'e EventQueue \<Rightarrow> bool \<times> 'e EventQueue" where
  "queue_push event q =
     (let next = c_mod (head q + 1) RING_BUFFER_SIZE
      in if next \<noteq> tail q
         then (True, q\<lparr>events := (events q)(head q := event), head := next\<rparr>)
         else (False, q))"

text \<open>\<open>queue_pop\<close> returns the event it wrote through its pointer, or \<open>None\<close> on failure.\<close>

definition queue_pop :: "'e EventQueue \<Rightarrow> 'e option \<times> 'e EventQueue" where
  "queue_pop q =
     (if tail q \<noteq> head q
      then (Some (events q (tail q)), q\<lparr>tail := c_mod (tail q + 1) RING_BUFFER_SIZE\<rparr>)
      else (None, q))"

text \<open>
  A run of the producer and the consumer is a list of operations. \<open>run_ops\<close> executes it
  and collects the events whose push succeeded and the events popped, in the order in
  which that happened; \<open>pushed_events\<close> lists the events of all attempted pushes.
  \<open>occupied\<close> is the number of stored events as the indices give it,
  \<open>queue_contents\<close> lists the stored events from the oldest to the newest, and
  \<open>queue_ok\<close> says that both indices lie inside the array.
\<close>

datatype 'e queue_op = Push 'e | Pop

definition occupied :: "'e EventQueue \<Rightarrow> int" where
  "occupied q = (head q - tail q) mod RING_BUFFER_SIZE"

definition queue_contents :: "'e EventQueue \<Rightarrow> 'e list" where
  "queue_contents q =
     map (\<lambda>k. events q ((tail q + int k) mod RING_BUFFER_SIZE)) [0 ..< nat (occupied q)]"

definition queue_ok :: "'e EventQueue \<Rightarrow> bool" where
  "queue_ok q = (0 \<le> head q \<and> head q < RING_BUFFER_SIZE \<and> 0 \<le> tail q \<and> tail q < RING_BUFFER_SIZE)"

fun run_ops :: "'e queue_op list \<Rightarrow> 'e EventQueue \<Rightarrow> 'e list \<Rightarrow> 'e list
    \<Rightarrow> 'e EventQueue \<times> 'e list \<times> 'e list" where
  "run_ops [] q accepted popped = (q, accepted, popped)"
| "run_ops (Push e # ops) q accepted popped =
     (case queue_push e q of
        (True, q') \<Rightarrow> run_ops ops q' (accepted @ [e]) popped
      | (False, q') \<Rightarrow> run_ops ops q' accepted popped)"
| "run_ops (Pop # ops) q accepted popped =
     (case queue_pop q of
        (Some e, q') \<Rightarrow> run_ops ops q' accepted (popped @ [e])
      | (None, q') \<Rightarrow> run_ops ops q' accepted popped)"

fun pushed_events :: "'e queue_op list \<Rightarrow> 'e list" where
  "pushed_events [] = []"
| "pushed_events (Push e # ops) = e # pushed_events ops"
| "pushed_events (Pop # ops) = pushed_events ops"

section \<open>Variable-length quantities\<close>

text \<open>
  The bytes that one call of the decoder consumes from the bytes between the cursor and
  the buffer end: up to and including the first byte whose high bit is clear, or all of
  them. \<open>vlq_accum\<close> is the accumulation \<open>result = (result << 7) | (byte & 0x7F)\<close> over
  such bytes.
\<close>

fun vlq_prefix :: "uint8_t list \<Rightarrow> uint8_t list" where
  "vlq_prefix [] = []"
| "vlq_prefix (b # bs) = (if b AND 0x80 \<noteq> 0 then b # vlq_prefix bs else [b])"

definition vlq_accum :: "c_int \<Rightarrow> uint8_t list \<Rightarrow> c_int" where
  "vlq_accum r bs = foldl (\<lambda>result byte. push_bit 7 result OR ucast (byte AND 0x7F)) r bs"

text \<open>
  The format itself, as the Standard MIDI File specification defines it: a quantity is
  written in base 128, most significant digit first, and every byte but the last has its
  high bit set. \<open>vlq_shape\<close> holds of a complete encoding, \<open>vlq_value\<close> is the integer
  it stands for, \<open>vlq_encode\<close> is the shortest encoding of an integer.
\<close>

definition vlq_shape :: "uint8_t list \<Rightarrow> bool" where
  "vlq_shape bs = (bs \<noteq> [] \<and> list_all (\<lambda>b. 128 \<le> unat b) (butlast bs) \<and> unat (last bs) < 128)"

definition vlq_value :: "uint8_t list \<Rightarrow> nat" where
  "vlq_value bs = foldl (\<lambda>v b. v * 128 + unat b mod 128) 0 bs"

fun vlq_cont :: "nat \<Rightarrow> uint8_t list" where
  "vlq_cont n = (if n = 0 then [] else vlq_cont (n div 128) @ [of_nat (128 + n mod 128)])"

definition vlq_encode :: "nat \<Rightarrow> uint8_t list" where
  "vlq_encode n = vlq_cont (n div 128) @ [of_nat (n mod 128)]"

section \<open>What the loops of play_midi preserve\<close>

text \<open>
  What a stretch of \<open>play_midi\<close> that works on the tracks \<open>js\<close> may change between the
  states \<open>s\<close> and \<open>s'\<close>: the global tick stays, no track is added or removed, tracks
  outside \<open>js\<close> stay, and every callback invoked is logged with the global tick.
\<close>

definition touches :: "nat set \<Rightarrow> player \<Rightarrow> player \<Rightarrow> bool" where
  "touches js s s' =
     (tick_p s' = tick_p s \<and> length (tracks s') = length (tracks s)
      \<and> (\<forall>j. j \<notin> js \<longrightarrow> tracks s' ! j = tracks s ! j)
      \<and> (\<exists>cs. calls s' = calls s @ map (Pair (tick_p s)) cs))"

text \<open>The emitted events are in order and none is later than the global tick.\<close>

definition in_tick_order :: "player \<Rightarrow> bool" where
  "in_tick_order s =
     (sorted (map fst (calls s)) \<and> list_all (\<lambda>c. fst c \<le> tick_p s) (calls s))"

text \<open>
  Unless some \<open>update_tick\<close> has lowered a track's tick, every event so far was emitted
  when the global tick was equal to the tick of its own track, and no track that still has
  data is earlier than the global tick.
\<close>

definition ticks_agree :: "player \<Rightarrow> bool" where
  "ticks_agree s =
     (tick_decreased s
      \<or> (call_ticks s = map fst (calls s)
         \<and> (\<forall>i < length (tracks s).
               data (tracks s ! i) \<noteq> None \<longrightarrow> tick_p s \<le> scast (tick (tracks s ! i)))))"

section \<open>Example inputs\<close>

text \<open>
  Concrete tracks and queues on which the theorems below are evaluated. A track is given
  in the state in which the function under study receives it.
\<close>

definition note_on_zero_track :: TrackData where
  "note_on_zero_track =
     \<lparr>data = Some [0x93, 0x3C, 0x00, 0x00], long_msg = [], tick = 0, offset = 0, length_t = 4,
      message = 0, temp = 0, long_msg_len = 0, long_msg_capacity = 0, data_capacity = 4\<rparr>"

definition note_off_track :: TrackData where
  "note_off_track =
     \<lparr>data = Some [0x83, 0x3C, 0x40, 0x00], long_msg = [], tick = 0, offset = 0, length_t = 4,
      message = 0, temp = 0, long_msg_len = 0, long_msg_capacity = 0, data_capacity = 4\<rparr>"

definition full_queue :: "nat EventQueue" where
  "full_queue = \<lparr>events = (\<lambda>_. 0)(6 := 9), head = 5, tail = 6\<rparr>"

definition drained_queue :: "nat EventQueue" where
  "drained_queue = \<lparr>events = (\<lambda>_. 0)(0 := 1, 1 := 2, 2 := 3), head = 3, tail = 3\<rparr>"

definition five_byte_track :: TrackData where
  "five_byte_track =
     \<lparr>data = Some [0x81, 0x80, 0x80, 0x80, 0x00, 0x90], long_msg = [], tick = 0, offset = 0,
      length_t = 6, message = 0, temp = 0, long_msg_len = 0, long_msg_capacity = 0,
      data_capacity = 6\<rparr>"

definition vlq_track :: TrackData where
  "vlq_track =
     \<lparr>data = Some [0x90, 0x81, 0x00, 0xFF], long_msg = [], tick = 0, offset = 1,
      length_t = 4, message = 0, temp = 0, long_msg_len = 0, long_msg_capacity = 0,
      data_capacity = 4\<rparr>"

definition truncated_track :: TrackData where
  "truncated_track =
     \<lparr>data = Some [0x81, 0x82], long_msg = [], tick = 0, offset = 0,
      length_t = 2, message = 0, temp = 0, long_msg_len = 0, long_msg_capacity = 0,
      data_capacity = 2\<rparr>"

definition meta_overrun_track :: TrackData where
  "meta_overrun_track =
     \<lparr>data = Some [0x00, 0xFF, 0x01, 0x05, 0x41], long_msg = replicate 256 0, tick = 0,
      offset = 2, length_t = 5, message = 0xFF, temp = 0, long_msg_len = 0,
      long_msg_capacity = 256, data_capacity = 5\<rparr>"

definition short_note_track :: TrackData where
  "short_note_track =
     \<lparr>data = Some [0x00, 0x90, 0x3C], long_msg = replicate 256 0, tick = 0,
      offset = 2, length_t = 3, message = 0x90, temp = 0, long_msg_len = 0,
      long_msg_capacity = 256, data_capacity = 3\<rparr>"

definition sysex_end_track :: TrackData where
  "sysex_end_track =
     \<lparr>data = Some [0x00, 0xF0], long_msg = replicate 256 0, tick = 0,
      offset = 2, length_t = 2, message = 0xF0, temp = 0, long_msg_len = 0,
      long_msg_capacity = 256, data_capacity = 2\<rparr>"

definition running_status_track :: TrackData where
  "running_status_track =
     \<lparr>data = Some [0x00, 0x90, 0x3C, 0x40, 0x00, 0x43, 0x40, 0x00, 0xFF, 0x2F, 0x00],
      long_msg = replicate 256 0, tick = 0, offset = 5, length_t = 11, message = 0x403C90,
      temp = 0x403C00, long_msg_len = 0, long_msg_capacity = 256, data_capacity = 11\<rparr>"

definition empty_track :: TrackData where
  "empty_track =
     \<lparr>data = Some [], long_msg = replicate 256 0, tick = 0, offset = 0, length_t = 0,
      message = 0, temp = 0, long_msg_len = 0, long_msg_capacity = 256, data_capacity = 0\<rparr>"

definition merge_track_a :: TrackData where
  "merge_track_a =
     \<lparr>data = Some [0x00, 0x90, 0x3C, 0x40, 0x0A, 0x90, 0x3E, 0x40, 0x0A, 0x90, 0x40, 0x40,
                   0x00, 0xFF, 0x2F, 0x00],
      long_msg = [], tick = 0, offset = 1, length_t = 16, message = 0, temp = 0,
      long_msg_len = 0, long_msg_capacity = 0, data_capacity = 16\<rparr>"

definition merge_track_b :: TrackData where
  "merge_track_b =
     \<lparr>data = Some [0x00, 0x91, 0x3C, 0x40, 0x05, 0x91, 0x3E, 0x40, 0x0A, 0x91, 0x40, 0x40,
                   0x00, 0xFF, 0x2F, 0x00],
      long_msg = [], tick = 0, offset = 1, length_t = 16, message = 0, temp = 0,
      long_msg_len = 0, long_msg_capacity = 0, data_capacity = 16\<rparr>"

definition zero_tempo_track :: TrackData where
  "zero_tempo_track =
     \<lparr>data = Some [0x00, 0xFF, 0x51, 0x03, 0x00, 0x00, 0x00, 0x60, 0x90, 0x3C, 0x40, 0x00, 0xFF, 0x2F, 0x00],
      long_msg = replicate 256 0, tick = 0, offset = 7, length_t = 15,
      message = 0x51FF, temp = 0x5100, long_msg_len = 3, long_msg_capacity = 256,
      data_capacity = 15\<rparr>"

definition tempo_track :: TrackData where
  "tempo_track =
     \<lparr>data = Some [0x00, 0xFF, 0x51, 0x03, 0x07, 0xA1, 0x20, 0x00, 0xFF, 0x2F, 0x00],
      long_msg = [0x07, 0xA1, 0x20], tick = 0, offset = 7, length_t = 11,
      message = 0x51FF, temp = 0x5100, long_msg_len = 3, long_msg_capacity = 3,
      data_capacity = 11\<rparr>"

section \<open>Dispatch of note events\<close>

lemma play_event_calls:
  assumes "update_command (tracks s ! i) = Inr t1" and "update_message t1 = Inr t2"
  shows "calls (snd (play_event td on_cb off_cb i s)) =
           calls s @ map (Pair (tick_p s)) (note_calls on_cb off_cb (message t2))"
  using assms by (simp add: play_event_def Let_def split: sum.splits prod.splits)

text \<open>
  The dispatch of \<open>play_midi\<close> reads the command, the channel, the note and the velocity
  from \<open>message\<close>, the word that \<open>update_message\<close> leaves behind. When that word has
  command \<open>0x90\<close> and velocity 0, the dispatch invokes what it invokes for a word with
  command \<open>0x80\<close> and the same channel and note: the note-off callback with that channel
  and note, when one is registered, and nothing else.
\<close>

lemma zero_velocity_in_message_is_note_off:
  assumes "update_command (tracks s ! i) = Inr t1" and "update_message t1 = Inr t2"
    and "command (message t2) = 0x90" and "velocity (message t2) = 0"
    and "update_command (tracks s' ! j) = Inr u1" and "update_message u1 = Inr u2"
    and "command (message u2) = 0x80"
    and "channel (message u2) = channel (message t2)"
    and "note_of (message u2) = note_of (message t2)"
  shows "calls (snd (play_event td on_cb off_cb i s)) =
           calls s @ map (Pair (tick_p s))
             (if off_cb then [NoteOffCall (channel (message t2)) (note_of (message t2))] else [])
       \<and> calls (snd (play_event td on_cb off_cb j s')) =
           calls s' @ map (Pair (tick_p s'))
             (if off_cb then [NoteOffCall (channel (message t2)) (note_of (message t2))] else [])"
proof -
  have a: "note_calls on_cb off_cb (message t2) =
      (if off_cb then [NoteOffCall (channel (message t2)) (note_of (message t2))] else [])"
    using assms(3,4) by (simp add: note_calls_def)
  have b: "note_calls on_cb off_cb (message u2) =
      (if off_cb then [NoteOffCall (channel (message t2)) (note_of (message t2))] else [])"
    using assms(7,8,9) by (simp add: note_calls_def)
  show ?thesis
    using play_event_calls [OF assms(1,2)] play_event_calls [OF assms(5,6)] a b
    by simp
qed

lemma zero_velocity_in_message_is_note_off_example:
  "calls (snd (play_event 480 True True 0 (init_player [note_on_zero_track]))) =
     [(0, NoteOffCall 3 0x3C)]
   \<and> calls (snd (play_event 480 True True 0 (init_player [note_off_track]))) =
     [(0, NoteOffCall 3 0x3C)]"
proof -
  let ?t2 = "note_on_zero_track\<lparr>offset := 3, message := 0x3C93, temp := 0x3C00\<rparr>"
  let ?u2 = "note_off_track\<lparr>offset := 3, message := 0x403C83, temp := 0x403C00\<rparr>"
  have h1: "update_command (tracks (init_player [note_on_zero_track]) ! 0)
      = Inr (note_on_zero_track\<lparr>offset := 1, message := 0x93\<rparr>)"
    by (simp add: init_player_def note_on_zero_track_def update_command_def rd_def)
  have h2: "update_message (note_on_zero_track\<lparr>offset := 1, message := 0x93\<rparr>) = Inr ?t2"
    by (simp add: note_on_zero_track_def update_message_def two_data_bytes_def rd_def)
  have h3: "command (message ?t2) = 0x90" "velocity (message ?t2) = 0"
    by (simp_all add: command_def status_byte_def velocity_def)
  have h4: "update_command (tracks (init_player [note_off_track]) ! 0)
      = Inr (note_off_track\<lparr>offset := 1, message := 0x83\<rparr>)"
    by (simp add: init_player_def note_off_track_def update_command_def rd_def)
  have h5: "update_message (note_off_track\<lparr>offset := 1, message := 0x83\<rparr>) = Inr ?u2"
    by (simp add: note_off_track_def update_message_def two_data_bytes_def rd_def)
  have h6: "command (message ?u2) = 0x80" "channel (message ?u2) = channel (message ?t2)"
      "note_of (message ?u2) = note_of (message ?t2)"
    by (simp_all add: command_def status_byte_def channel_def note_of_def)
  have h7: "channel (message ?t2) = 3" "note_of (message ?t2) = 0x3C"
    by (simp_all add: status_byte_def channel_def note_of_def)
  show ?thesis
    using zero_velocity_in_message_is_note_off [OF h1 h2 h3 h4 h5 h6, of 480 True True] h7
    by (simp add: init_player_def)
qed

text \<open>
  C8. The claim: every decoded Note-On with velocity 0 is surfaced as an explicit Note-Off
  with the same channel and note is: the note-off callback is invoked with that channel
  and note, and the note-on callback is not invoked. The track
  \<open>00 90 3C 40 60 3C 00 00 FF 2F 00\<close> holds a Note-On (channel 0, note \<open>0x3C\<close>, velocity
  \<open>0x40\<close>) and, 96 ticks later and under running status, a Note-On of the same note with
  velocity 0. The session ends normally; for the second event it invokes the note-on
  callback, with the velocity \<open>0x40\<close> of the first event, and never the note-off
  callback. With the status byte written out, \<open>60 90 3C 00\<close>, the same event invokes
  the note-off callback with channel 0 and note \<open>0x3C\<close>, as the explicit Note-Off
  \<open>60 80 3C 00\<close> does.
\<close>

theorem running_status_note_on_velocity_zero_invokes_note_on:
  "fst (load_and_play 4 [ [0x00, 0x90, 0x3C, 0x40, 0x60, 0x3C, 0x00, 0x00, 0xFF, 0x2F, 0x00] ]
          (replicate 256 0) 480 True True) = Finished
   \<and> calls (snd (load_and_play 4 [ [0x00, 0x90, 0x3C, 0x40, 0x60, 0x3C, 0x00, 0x00, 0xFF, 0x2F, 0x00] ]
                     (replicate 256 0) 480 True True))
       = [(0, NoteOnCall 0x40 0 0x3C), (0x60, NoteOnCall 0x40 0 0x3C)]
   \<and> calls (snd (load_and_play 4
                     [ [0x00, 0x90, 0x3C, 0x40, 0x60, 0x90, 0x3C, 0x00, 0x00, 0xFF, 0x2F, 0x00] ]
                     (replicate 256 0) 480 True True))
       = [(0, NoteOnCall 0x40 0 0x3C), (0x60, NoteOffCall 0 0x3C)]
   \<and> calls (snd (load_and_play 4
                     [ [0x00, 0x90, 0x3C, 0x40, 0x60, 0x80, 0x3C, 0x00, 0x00, 0xFF, 0x2F, 0x00] ]
                     (replicate 256 0) 480 True True))
       = [(0, NoteOnCall 0x40 0 0x3C), (0x60, NoteOffCall 0 0x3C)]"
  by code_simp

lemma note_on_call_arguments:
  assumes "command msg = 0x90" and "velocity msg > 0"
  shows "note_calls True off_cb msg = [NoteOnCall (velocity msg) (channel msg) (note_of msg)]"
  using assms by (simp add: note_calls_def)

text \<open>
  C10. The claim: a Note-On with channel c, note n and velocity v > 0 reaches the note-on
  callback as (c, n, v), the order that midiplayer.h declares. The track below holds one
  Note-On with channel 1, note \<open>0x3C\<close> and velocity \<open>0x40\<close>; \<open>play_midi\<close> passes
  \<open>0x40\<close> (the velocity) as first argument, 1 (the channel) as second and \<open>0x3C\<close>
  (the note) as third.
\<close>

theorem note_on_callback_receives_velocity_first:
  "calls (snd (load_and_play 2 [ [0x00, 0x91, 0x3C, 0x40, 0x00, 0xFF, 0x2F, 0x00] ]
                 (replicate 256 0) 480 True True))
     = [(0, NoteOnCall 0x40 1 0x3C)]
   \<and> NoteOnCall 0x40 1 0x3C \<noteq> NoteOnCall 1 0x3C 0x40"
  by code_simp

section \<open>The event queue is a FIFO\<close>

lemma size_pos: "0 < RING_BUFFER_SIZE" by (simp add: RING_BUFFER_SIZE_def)

lemma c_mod_nonneg: "0 \<le> a \<Longrightarrow> 0 < b \<Longrightarrow> c_mod a b = a mod b"
  by (cases "a = 0") (simp_all add: c_mod_def)

lemma ring_last: 
  fixes h t n :: int
  assumes "0 < n" "0 \<le> h" "h < n" "0 \<le> t" "t < n"
  shows "(t + (h - t) mod n) mod n = h"
  using assms by (simp add: mod_add_right_eq)

lemma ring_distinct:
  fixes h t n k :: int
  assumes "0 < n" "0 \<le> h" "h < n" "0 \<le> t" "t < n" "0 \<le> k" "k < (h - t) mod n"
  shows "(t + k) mod n \<noteq> h"
proof
  assume e: "(t + k) mod n = h"
  have "(h - t) mod n = ((t + k) mod n - t) mod n" using e by simp
  also have "\<dots> = (t + k - t) mod n" by (simp add: mod_diff_left_eq)
  also have "\<dots> = k"
  proof -
    have "k < n" using assms(1,7) pos_mod_bound [of n "h - t"] by linarith
    then show ?thesis using assms(6) by simp
  qed
  finally show False using assms(7) by simp
qed

lemma ring_not_full:
  fixes h t n :: int
  assumes "0 < n" "0 \<le> h" "h < n" "0 \<le> t" "t < n" "(h + 1) mod n \<noteq> t"
  shows "(h + 1 - t) mod n = (h - t) mod n + 1"
proof -
  have b: "(h - t) mod n < n" "0 \<le> (h - t) mod n" using assms(1) by simp_all
  have "((h - t) mod n + 1) mod n = ((h - t) + 1) mod n"
    by (rule mod_add_left_eq)
  moreover have "h - t + 1 = h + 1 - t" by simp
  ultimately have step: "(h + 1 - t) mod n = ((h - t) mod n + 1) mod n"
    by simp
  have "(h - t) mod n + 1 \<noteq> n"
  proof
    assume a: "(h - t) mod n + 1 = n"
    have "(h + 1 - t) mod n = ((h - t) mod n + 1) mod n"
      by (rule step)
    then have "(h + 1 - t) mod n = 0" using a by simp
    then have "(h + 1) mod n = t mod n"
      by (metis mod_eq_dvd_iff dvd_eq_mod_eq_0)
    then show False using assms by simp
  qed
  then have "(h - t) mod n + 1 < n" using b by linarith
  then have "((h - t) mod n + 1) mod n = (h - t) mod n + 1"
    using b by simp
  then show ?thesis using step by simp
qed

lemma ring_pop:
  fixes h t n :: int
  assumes "0 < n" "0 \<le> h" "h < n" "0 \<le> t" "t < n" "t \<noteq> h"
  shows "(h - (t + 1) mod n) mod n = (h - t) mod n - 1" and "0 < (h - t) mod n"
proof -
  show p: "0 < (h - t) mod n"
  proof (rule ccontr)
    assume "\<not> 0 < (h - t) mod n"
    then have "(h - t) mod n = 0" using assms(1) pos_mod_sign [of n "h - t"] by linarith
    then have "h mod n = t mod n" by (metis mod_eq_dvd_iff dvd_eq_mod_eq_0)
    then show False using assms by simp
  qed
  have "(h - (t + 1) mod n) mod n = (h - (t + 1)) mod n"
    by (simp add: mod_diff_right_eq)
  also have "\<dots> = (h - t - 1) mod n"
    by (simp add: algebra_simps)
  also have "\<dots> = ((h - t) mod n - 1) mod n"
    by (rule mod_diff_left_eq [symmetric])
  also have "\<dots> = (h - t) mod n - 1"
  proof -
    have "(h - t) mod n < n" using assms(1) by simp
    then have "0 \<le> (h - t) mod n - 1" "(h - t) mod n - 1 < n" using p by linarith+
    then show ?thesis by simp
  qed
  finally show "(h - (t + 1) mod n) mod n = (h - t) mod n - 1" .
qed

lemma push_full:
  "c_mod (head q + 1) RING_BUFFER_SIZE = tail q \<Longrightarrow> queue_push e q = (False, q)"
  by (simp add: queue_push_def)

lemma pop_empty: "tail q = head q \<Longrightarrow> queue_pop q = (None, q)"
  by (simp add: queue_pop_def)

lemma push_ok:
  assumes ok: "queue_ok q" and nf: "c_mod (head q + 1) RING_BUFFER_SIZE \<noteq> tail q"
  shows "\<exists>q'. queue_push e q = (True, q') \<and> queue_ok q'
     \<and> queue_contents q' = queue_contents q @ [e] \<and> occupied q' = occupied q + 1"
proof -
  let ?n = RING_BUFFER_SIZE
  let ?q = "q\<lparr>events := (events q)(head q := e), head := (head q + 1) mod ?n\<rparr>"
  have cm: "c_mod (head q + 1) ?n = (head q + 1) mod ?n"
    using ok by (simp add: c_mod_nonneg size_pos queue_ok_def)
  have r: "queue_push e q = (True, ?q)" using nf by (simp add: queue_push_def cm Let_def)
  have okq: "queue_ok ?q" using ok size_pos by (simp add: queue_ok_def)
  have hb: "0 \<le> head q" "head q < ?n" "0 \<le> tail q" "tail q < ?n"
    using ok by (simp_all add: queue_ok_def)
  have occ: "occupied ?q = occupied q + 1"
  proof -
    have "((head q + 1) mod ?n - tail q) mod ?n = (head q + 1 - tail q) mod ?n"
      by (simp add: mod_diff_left_eq)
    then show ?thesis
      using ring_not_full [OF size_pos hb] nf cm by (simp add: occupied_def)
  qed
  have on: "0 \<le> occupied q" using size_pos by (simp add: occupied_def)
  have nat_occ: "nat (occupied ?q) = Suc (nat (occupied q))" using occ on by simp
  have last: "(tail q + int (nat (occupied q))) mod ?n = head q"
    using on ring_last [OF size_pos hb] by (simp add: occupied_def)
  have other: "(tail q + int k) mod ?n \<noteq> head q" if "k < nat (occupied q)" for k
    using ring_distinct [OF size_pos hb, of "int k"] that by (simp add: occupied_def)
  have "queue_contents ?q = queue_contents q @ [e]"
    unfolding queue_contents_def nat_occ
    using last other by (simp add: occupied_def)
  then show ?thesis using r okq occ by blast
qed

lemma pop_ok:
  assumes ok: "queue_ok q" and ne: "tail q \<noteq> head q"
  shows "\<exists>q' e. queue_pop q = (Some e, q') \<and> queue_ok q'
     \<and> queue_contents q = e # queue_contents q' \<and> occupied q' = occupied q - 1"
proof -
  let ?n = RING_BUFFER_SIZE
  let ?q = "q\<lparr>tail := (tail q + 1) mod ?n\<rparr>"
  have hb: "0 \<le> head q" "head q < ?n" "0 \<le> tail q" "tail q < ?n"
    using ok by (simp_all add: queue_ok_def)
  have cm: "c_mod (tail q + 1) ?n = (tail q + 1) mod ?n"
    using ok by (simp add: c_mod_nonneg size_pos queue_ok_def)
  have r: "queue_pop q = (Some (events q (tail q)), ?q)" using ne by (simp add: queue_pop_def cm)
  have okq: "queue_ok ?q" using ok size_pos by (simp add: queue_ok_def)
  have occ: "occupied ?q = occupied q - 1" and pos: "0 < occupied q"
    using ring_pop [OF size_pos hb ne] by (simp_all add: occupied_def)
  have nat_occ: "nat (occupied q) = Suc (nat (occupied ?q))" using occ pos by simp
  have shift: "((tail q + 1) mod ?n + int k) mod ?n = (tail q + int (Suc k)) mod ?n" for k
  proof -
    have "((tail q + 1) mod ?n + int k) mod ?n = ((tail q + 1) + int k) mod ?n"
      by (rule mod_add_left_eq)
    moreover have "(tail q + 1) + int k = tail q + int (Suc k)" by simp
    ultimately show ?thesis by simp
  qed
  have gen: "map f [0 ..< Suc m] = f 0 # map (\<lambda>k. f (Suc k)) [0 ..< m]" for f :: "nat \<Rightarrow> 'a" and m
    by (simp only: map_upt_Suc)
  have t0: "(tail q + int 0) mod ?n = tail q" using hb by simp
  have "queue_contents q = events q (tail q) # queue_contents ?q"
    unfolding queue_contents_def nat_occ gen t0
    by (simp add: shift del: upt_Suc)
  then show ?thesis using r okq occ by blast
qed


lemma init_queue_ok: "queue_ok (init_event_queue arr)"
  by (simp add: queue_ok_def init_event_queue_def RING_BUFFER_SIZE_def)

lemma length_queue_contents: "int (length (queue_contents q)) = occupied q"
  using size_pos by (simp add: queue_contents_def occupied_def)

lemma run_ops_invariant:
  assumes "queue_ok q0" and "run_ops ops q0 accepted0 popped0 = (q, accepted, popped)"
  shows "queue_ok q
     \<and> (\<exists>xs ys. accepted = accepted0 @ xs \<and> popped = popped0 @ ys
           \<and> subseq xs (pushed_events ops)
           \<and> queue_contents q0 @ xs = ys @ queue_contents q)"
  using assms
proof (induction ops arbitrary: q0 accepted0 popped0)
  case Nil
  then show ?case by simp
next
  case (Cons op ops)
  show ?case
  proof (cases op)
    case (Push e)
    show ?thesis
    proof (cases "c_mod (head q0 + 1) RING_BUFFER_SIZE = tail q0")
      case True
      then have r: "queue_push e q0 = (False, q0)" by (rule push_full)
      with Cons.prems(2) Push have run: "run_ops ops q0 accepted0 popped0 = (q, accepted, popped)"
        by simp
      from Cons.IH [OF Cons.prems(1) run] obtain xs ys where
        "queue_ok q" "accepted = accepted0 @ xs" "popped = popped0 @ ys"
        "subseq xs (pushed_events ops)" "queue_contents q0 @ xs = ys @ queue_contents q"
        by auto
      then have "queue_ok q \<and> accepted = accepted0 @ xs \<and> popped = popped0 @ ys
          \<and> subseq xs (pushed_events (op # ops))
          \<and> queue_contents q0 @ xs = ys @ queue_contents q"
        using Push by (simp add: list_emb_Cons)
      then show ?thesis by blast
    next
      case False
      from push_ok [OF Cons.prems(1) False, of e] obtain q1 where
        r: "queue_push e q0 = (True, q1)" and ok1: "queue_ok q1"
        and c1: "queue_contents q1 = queue_contents q0 @ [e]"
        by blast
      from Cons.prems(2) r Push
      have run: "run_ops ops q1 (accepted0 @ [e]) popped0 = (q, accepted, popped)"
        by simp
      from Cons.IH [OF ok1 run] obtain xs ys where
        "queue_ok q" "accepted = (accepted0 @ [e]) @ xs" "popped = popped0 @ ys"
        "subseq xs (pushed_events ops)" "queue_contents q1 @ xs = ys @ queue_contents q"
        by auto
      then have "queue_ok q \<and> accepted = accepted0 @ (e # xs) \<and> popped = popped0 @ ys
          \<and> subseq (e # xs) (pushed_events (op # ops))
          \<and> queue_contents q0 @ (e # xs) = ys @ queue_contents q"
        using c1 Push by simp
      then show ?thesis by blast
    qed
  next
    case Pop
    show ?thesis
    proof (cases "tail q0 = head q0")
      case True
      then have r: "queue_pop q0 = (None, q0)" by (rule pop_empty)
      with Cons.prems(2) Pop have run: "run_ops ops q0 accepted0 popped0 = (q, accepted, popped)"
        by simp
      from Cons.IH [OF Cons.prems(1) run] show ?thesis using Pop by simp
    next
      case False
      from pop_ok [OF Cons.prems(1) False] obtain q1 e where
        r: "queue_pop q0 = (Some e, q1)" and ok1: "queue_ok q1"
        and c1: "queue_contents q0 = e # queue_contents q1"
        by blast
      from Cons.prems(2) r Pop
      have run: "run_ops ops q1 accepted0 (popped0 @ [e]) = (q, accepted, popped)"
        by simp
      from Cons.IH [OF ok1 run] obtain xs ys where
        "queue_ok q" "accepted = accepted0 @ xs" "popped = (popped0 @ [e]) @ ys"
        "subseq xs (pushed_events ops)" "queue_contents q1 @ xs = ys @ queue_contents q"
        by auto
      then have "queue_ok q \<and> accepted = accepted0 @ xs \<and> popped = popped0 @ (e # ys)
          \<and> subseq xs (pushed_events (op # ops))
          \<and> queue_contents q0 @ xs = (e # ys) @ queue_contents q"
        using c1 Pop by simp
      then show ?thesis by blast
    qed
  qed
qed

text \<open>
  C9. Start from any well-formed queue, such as the initial one, and run any sequence of
  pushes and pops. Then the events that were stored at the start followed by the accepted
  pushes are exactly the popped events followed by what the queue still holds, in this
  order, so events are popped in the order in which they were pushed; the accepted pushes
  are a subsequence of the attempted ones; the number of stored events is
  \<open>(head - tail) mod RING_BUFFER_SIZE\<close> and never exceeds \<open>RING_BUFFER_SIZE - 1\<close>; a push
  onto a full queue fails and returns the queue unchanged, any other push succeeds; a pop
  from an empty queue fails and returns the queue unchanged, any other pop yields the
  oldest stored event.
\<close>

theorem event_queue_fifo:
  assumes "queue_ok q0" and "run_ops ops q0 [] [] = (q, accepted, popped)"
  shows "queue_contents q0 @ accepted = popped @ queue_contents q
     \<and> subseq accepted (pushed_events ops)
     \<and> int (length (queue_contents q)) = occupied q
     \<and> occupied q \<le> RING_BUFFER_SIZE - 1
     \<and> (c_mod (head q + 1) RING_BUFFER_SIZE = tail q \<longrightarrow> queue_push e q = (False, q))
     \<and> (c_mod (head q + 1) RING_BUFFER_SIZE \<noteq> tail q \<longrightarrow> fst (queue_push e q))
     \<and> (tail q = head q \<longrightarrow> queue_pop q = (None, q))
     \<and> (tail q \<noteq> head q \<longrightarrow> fst (queue_pop q) = Some (hd (queue_contents q)))"
proof -
  from run_ops_invariant [OF assms] have ok: "queue_ok q"
    and a: "queue_contents q0 @ accepted = popped @ queue_contents q"
    and b: "subseq accepted (pushed_events ops)"
    by auto
  have c: "occupied q \<le> RING_BUFFER_SIZE - 1"
    using size_pos pos_mod_bound [of RING_BUFFER_SIZE "head q - tail q"]
    by (simp add: occupied_def)
  have d: "fst (queue_push e q)" if "c_mod (head q + 1) RING_BUFFER_SIZE \<noteq> tail q"
    using push_ok [OF ok that, of e] by auto
  have f: "fst (queue_pop q) = Some (hd (queue_contents q))" if "tail q \<noteq> head q"
    using pop_ok [OF ok that] by auto
  show ?thesis
    using a b c d f length_queue_contents [of q] push_full [of q e] pop_empty [of q]
    by simp
qed

theorem event_queue_fifo_witness:
  "run_ops [Push 1, Push 2, Pop, Push 3, Pop, Pop, Pop] (init_event_queue (\<lambda>_. 0)) [] []
     = (drained_queue, [1, 2, 3], [1, 2, 3])
   \<and> subseq [1, 2, 3 :: nat] (pushed_events [Push 1, Push 2, Pop, Push 3, Pop, Pop, Pop])
   \<and> queue_contents drained_queue = []
   \<and> queue_pop drained_queue = (None, drained_queue)
   \<and> fst (queue_push 4 drained_queue)
   \<and> occupied full_queue = RING_BUFFER_SIZE - 1
   \<and> queue_push 7 full_queue = (False, full_queue)
   \<and> fst (queue_pop full_queue) = Some (hd (queue_contents full_queue))"
proof -
  have r: "run_ops [Push 1, Push 2, Pop, Push 3, Pop, Pop, Pop] (init_event_queue (\<lambda>_. 0)) [] []
     = (drained_queue, [1, 2, 3 :: nat], [1, 2, 3])"
    by (simp add: queue_push_def queue_pop_def init_event_queue_def drained_queue_def
        c_mod_def RING_BUFFER_SIZE_def fun_upd_twist)
  have c0: "queue_contents (init_event_queue (\<lambda>_. 0 :: nat)) = []"
    by (simp add: queue_contents_def occupied_def init_event_queue_def)
  have okf: "queue_ok full_queue"
    by (simp add: queue_ok_def full_queue_def RING_BUFFER_SIZE_def)
  have rf: "run_ops [] full_queue [] [] = (full_queue, [], [])"
    by simp
  have h1: "c_mod (head drained_queue + 1) RING_BUFFER_SIZE \<noteq> tail drained_queue"
    "tail drained_queue = head drained_queue"
    by (simp_all add: drained_queue_def c_mod_def RING_BUFFER_SIZE_def)
  have h2: "c_mod (head full_queue + 1) RING_BUFFER_SIZE = tail full_queue"
    "tail full_queue \<noteq> head full_queue"
    by (simp_all add: full_queue_def c_mod_def RING_BUFFER_SIZE_def)
  have occ: "occupied full_queue = RING_BUFFER_SIZE - 1"
    by (simp add: occupied_def full_queue_def RING_BUFFER_SIZE_def)
  show ?thesis
    using event_queue_fifo [OF init_queue_ok r, of 4] event_queue_fifo [OF okf rf, of 7]
      r c0 h1 h2 occ
    by simp
qed

section \<open>The variable-length decoder\<close>


lemma bit_0x7F: "bit (0x7F :: int) n \<longleftrightarrow> n < 7"
proof -
  have eq: "(0x7F :: int) = mask 7" by (simp add: mask_eq_exp_minus_1)
  show ?thesis unfolding eq by (simp add: bit_mask_iff)
qed

lemma bit_0x80: "bit (0x80 :: int) n \<longleftrightarrow> n = 7"
proof -
  have eq: "(0x80 :: int) = 2 ^ 7" by simp
  show ?thesis unfolding eq by (simp add: bit_exp_iff del: power_numeral)
qed

lemma or_plus: "push_bit 7 (r :: c_int) OR ucast ((b :: uint8_t) AND 0x7F) = r * 128 + ucast (b AND 0x7F)"
proof -
  have "push_bit 7 r AND (ucast (b AND 0x7F) :: c_int) = 0"
    by (rule bit_eqI) (auto simp add: bit_simps bit_0x7F)
  then have "push_bit 7 r + (ucast (b AND 0x7F) :: c_int) = push_bit 7 r OR ucast (b AND 0x7F)"
    by (rule disjunctive_add_eq_or)
  then show ?thesis by (simp add: push_bit_eq_mult)
qed

lemma and_0x7F_mod: "unat ((b :: uint8_t) AND 0x7F) = unat b mod 128"
proof -
  have eq: "(0x7F :: uint8_t) = mask 7" by (simp add: mask_eq_decr_exp)
  have "b AND 0x7F = take_bit 7 b" unfolding eq by (simp add: take_bit_eq_mask)
  then have "unat (b AND 0x7F) = take_bit 7 (unat b)" by (simp add: unsigned_take_bit_eq)
  then show ?thesis by (simp add: take_bit_eq_mod)
qed

lemma high_bit_iff: "(b :: uint8_t) AND 0x80 \<noteq> 0 \<longleftrightarrow> 128 \<le> unat b"
proof -
  have "b AND 0x80 \<noteq> 0 \<longleftrightarrow> bit b 7"
  proof
    assume ne: "b AND 0x80 \<noteq> 0"
    show "bit b 7"
    proof (rule ccontr)
      assume "\<not> bit b 7"
      then have "b AND 0x80 = 0"
        by (intro bit_eqI) (auto simp add: bit_simps bit_0x80)
      with ne show False by simp
    qed
  next
    assume "bit b 7"
    then have "bit (b AND 0x80) 7" by (simp add: bit_simps bit_0x80)
    then show "b AND 0x80 \<noteq> 0" by auto
  qed
  also have "\<dots> \<longleftrightarrow> 128 \<le> unat b"
  proof -
    have "unat b < 256" using unsigned_less [of b] by simp
    then have "unat b div 128 = (if 128 \<le> unat b then 1 else 0)" by auto
    moreover have "bit (unat b) 7 \<longleftrightarrow> bit b 7"
      by (simp add: bit_unsigned_iff)
    moreover have "bit (unat b) 7 \<longleftrightarrow> odd (unat b div 2 ^ 7)"
      by (rule bit_iff_odd)
    ultimately show ?thesis by (auto split: if_splits)
  qed
  finally show ?thesis .
qed


declare vlq_cont.simps [simp del]

lemma rd_in: "unat i < length d \<Longrightarrow> rd d i = Inr (d ! unat i)"
  by (simp add: rd_def)

lemma unat_succ: "(off :: size_t) < len \<Longrightarrow> unat (off + 1) = unat off + 1"
  by (metis (no_types, lifting) add.commute add_cancel_left_right inc_i
    inc_le unat_plus_simple unsigned_0 unsigned_1 word_gt_0)

lemma decode_loop_run:
  assumes "data track = Some d" and "unat (length_t track) \<le> length d"
    and "offset track < length_t track"
  shows "decode_loop track r =
      Inr (vlq_accum r (vlq_prefix (drop (unat (offset track)) (take (unat (length_t track)) d))),
           track\<lparr>offset := offset track
              + of_nat (length (vlq_prefix (drop (unat (offset track)) (take (unat (length_t track)) d))))\<rparr>)
    \<and> unat (offset track) + length (vlq_prefix (drop (unat (offset track)) (take (unat (length_t track)) d)))
         \<le> unat (length_t track)"
  using assms
proof (induction track r rule: decode_loop.induct)
  case (1 track result)
  let ?off = "offset track" and ?len = "length_t track"
  let ?b = "d ! unat ?off"
  let ?track' = "track\<lparr>offset := ?off + 1\<rparr>"
  let ?r' = "push_bit 7 result OR ucast (?b AND 0x7F)"
  have lt: "unat ?off < unat ?len" using "1.prems"(3) by (simp add: word_less_nat_alt)
  then have inb: "unat ?off < length d" using "1.prems"(2) by simp
  have rd: "rd d ?off = Inr ?b" using inb by (rule rd_in)
  have suc: "unat (?off + 1) = unat ?off + 1" using "1.prems"(3) by (rule unat_succ)
  have dr: "drop (unat ?off) (take (unat ?len) d) = ?b # drop (unat ?off + 1) (take (unat ?len) d)"
    using lt inb by (simp add: Cons_nth_drop_Suc [symmetric])
  show ?case
  proof (cases "?b AND 0x80 \<noteq> 0 \<and> ?off + 1 < ?len")
    case True
    have ih: "decode_loop ?track' ?r' =
      Inr (vlq_accum ?r' (vlq_prefix (drop (unat (offset ?track')) (take (unat (length_t ?track')) d))),
           ?track'\<lparr>offset := offset ?track'
              + of_nat (length (vlq_prefix (drop (unat (offset ?track')) (take (unat (length_t ?track')) d))))\<rparr>)
      \<and> unat (offset ?track') + length (vlq_prefix (drop (unat (offset ?track')) (take (unat (length_t ?track')) d)))
         \<le> unat (length_t ?track')"
      using "1.IH" [OF "1.prems"(1) rd refl refl] True "1.prems" by simp
    have step: "decode_loop track result = decode_loop ?track' ?r'"
      using True "1.prems"(1) rd by (subst decode_loop.simps) (simp add: Let_def)
    show ?thesis
      using ih True by (simp add: step dr suc vlq_accum_def add.assoc)
  next
    case False
    have step: "decode_loop track result = Inr (?r', ?track')"
      using False "1.prems"(1) rd by (subst decode_loop.simps) (auto simp add: Let_def)
    have pre: "vlq_prefix (drop (unat ?off) (take (unat ?len) d)) = [?b]"
    proof (cases "?b AND 0x80 \<noteq> 0")
      case True
      with False have "\<not> ?off + 1 < ?len" by simp
      then have "unat ?len \<le> unat ?off + 1" using suc by (simp add: word_less_nat_alt)
      then show ?thesis using True dr by simp
    next
      case False
      then show ?thesis using dr by simp
    qed
    show ?thesis using lt by (simp add: step pre vlq_accum_def)
  qed
qed

lemma vlq_prefix_nonempty: "bs \<noteq> [] \<Longrightarrow> vlq_prefix bs \<noteq> []"
  by (cases bs) simp_all

lemma vlq_prefix_shape:
  "vlq_shape bs \<Longrightarrow> vlq_prefix (bs @ rest) = bs"
proof (induction bs)
  case Nil
  then show ?case by (simp add: vlq_shape_def)
next
  case (Cons b bs)
  show ?case
  proof (cases "bs = []")
    case True
    with Cons.prems show ?thesis by (simp add: vlq_shape_def high_bit_iff)
  next
    case False
    with Cons.prems have "vlq_shape bs" "128 \<le> unat b" by (simp_all add: vlq_shape_def)
    with Cons.IH show ?thesis by (simp add: high_bit_iff)
  qed
qed

lemma vlq_prefix_truncated:
  "list_all (\<lambda>b. 128 \<le> unat b) bs \<Longrightarrow> vlq_prefix bs = bs"
  by (induction bs) (simp_all add: high_bit_iff)

lemma ucast_and_0x7F: "(ucast ((b :: uint8_t) AND 0x7F) :: c_int) = of_nat (unat b mod 128)"
  by (metis and_0x7F_mod unsigned_of_nat of_nat_unat ucast_id unat_eq_nat_uint word_of_nat_eq_iff)


lemma vlq_accum_of_nat:
  "vlq_accum (of_nat v) bs = of_nat (foldl (\<lambda>v b. v * 128 + unat b mod 128) v bs)"
proof (induction bs arbitrary: v)
  case Nil
  then show ?case by (simp add: vlq_accum_def)
next
  case (Cons b bs)
  have "push_bit 7 (of_nat v :: c_int) OR ucast (b AND 0x7F) = of_nat v * 128 + ucast (b AND 0x7F)"
    by (rule or_plus)
  also have "\<dots> = of_nat v * 128 + of_nat (unat b mod 128)"
    by (simp only: ucast_and_0x7F)
  also have "\<dots> = of_nat (v * 128 + unat b mod 128)"
    by simp
  finally have "push_bit 7 (of_nat v :: c_int) OR ucast (b AND 0x7F) = of_nat (v * 128 + unat b mod 128)" .
  then show ?case using Cons.IH [of "v * 128 + unat b mod 128"]
    by (simp add: vlq_accum_def)
qed

lemma vlq_accum_value: "vlq_accum 0 bs = of_nat (vlq_value bs)"
  using vlq_accum_of_nat [of 0 bs] by (simp add: vlq_value_def)

lemma foldl_vlq_bound:
  "foldl (\<lambda>v b. v * 128 + unat (b :: uint8_t) mod 128) v bs < (v + 1) * 128 ^ length bs"
proof (induction bs arbitrary: v)
  case Nil
  then show ?case by simp
next
  case (Cons b bs)
  have "unat b mod 128 < 128" by simp
  then have "v * 128 + unat b mod 128 + 1 \<le> (v + 1) * 128" by simp
  then have "(v * 128 + unat b mod 128 + 1) * 128 ^ length bs \<le> (v + 1) * 128 * 128 ^ length bs"
    by (rule mult_le_mono1)
  with Cons.IH [of "v * 128 + unat b mod 128"]
  have "foldl (\<lambda>v b. v * 128 + unat b mod 128) (v * 128 + unat b mod 128) bs
      < (v + 1) * 128 * 128 ^ length bs"
    by (rule less_le_trans)
  then show ?case
    by (simp add: algebra_simps)
qed

lemma vlq_value_bound: "vlq_value bs < 128 ^ length bs"
  using foldl_vlq_bound [of 0 bs] by (simp add: vlq_value_def)

lemma vlq_value_small:
  assumes "length bs \<le> 4"
  shows "vlq_value bs < 2 ^ 28"
proof -
  have "(128 :: nat) ^ length bs \<le> 128 ^ 4"
    using assms by (intro power_increasing) simp_all
  then show ?thesis using vlq_value_bound [of bs] by simp
qed

lemma sint_small: "v < 2 ^ 28 \<Longrightarrow> sint (of_nat v :: c_int) = int v"
proof -
  assume a: "v < 2 ^ 28"
  have "- (2 ^ 31) \<le> int v" "int v < 2 ^ 31" using a by simp_all
  then have "signed_take_bit 31 (int v) = int v"
    by (intro signed_take_bit_int_eq_self) simp_all
  then show ?thesis by (simp add: signed_of_nat)
qed

lemma unat_cont_byte: "unat (of_nat (128 + n mod 128) :: uint8_t) = 128 + n mod 128"
proof -
  have "128 + n mod 128 < 256" by simp
  moreover have "unat (of_nat (128 + n mod 128) :: uint8_t) = (128 + n mod 128) mod 2 ^ LENGTH(8)"
    by (rule unat_of_nat)
  ultimately show ?thesis by simp
qed

lemma unat_last_byte: "unat (of_nat (n mod 128) :: uint8_t) = n mod 128"
proof -
  have "n mod 128 < 256" using mod_less_divisor [of 128 n] by linarith
  then show ?thesis by (simp add: unat_of_nat)
qed


lemma vlq_cont_all: "list_all (\<lambda>b. 128 \<le> unat b) (vlq_cont m)"
proof (induction m rule: vlq_cont.induct)
  case (1 n)
  show ?case
  proof (cases "n = 0")
    case True
    then show ?thesis by (simp add: vlq_cont.simps)
  next
    case False
    have "list_all (\<lambda>b. 128 \<le> unat b) (vlq_cont (n div 128))" using 1 False by simp
    moreover have "vlq_cont n = vlq_cont (n div 128) @ [of_nat (128 + n mod 128)]"
      using False by (subst vlq_cont.simps) simp
    ultimately show ?thesis by (simp add: unat_cont_byte del: of_nat_add)
  qed
qed

lemma vlq_cont_value:
  "foldl (\<lambda>v b. v * 128 + unat (b :: uint8_t) mod 128) v (vlq_cont m)
     = v * 128 ^ length (vlq_cont m) + m"
proof (induction m rule: vlq_cont.induct)
  case (1 n)
  show ?case
  proof (cases "n = 0")
    case True
    then show ?thesis by (simp add: vlq_cont.simps)
  next
    case False
    have ih: "foldl (\<lambda>v b. v * 128 + unat (b :: uint8_t) mod 128) v (vlq_cont (n div 128))
        = v * 128 ^ length (vlq_cont (n div 128)) + n div 128"
      using 1 False by simp
    have eq: "vlq_cont n = vlq_cont (n div 128) @ [of_nat (128 + n mod 128)]"
      using False by (subst vlq_cont.simps) simp
    have "(128 + n mod 128) mod 128 = n mod 128" by simp
    then show ?thesis
      unfolding eq by (simp only: foldl_append foldl.simps ih unat_cont_byte length_append list.size)
        (simp add: algebra_simps)
  qed
qed

lemma vlq_cont_length: "m < 128 ^ k \<Longrightarrow> length (vlq_cont m) \<le> k"
proof (induction k arbitrary: m)
  case 0
  then show ?case by (simp add: vlq_cont.simps)
next
  case (Suc k)
  show ?case
  proof (cases "m = 0")
    case True
    then show ?thesis by (simp add: vlq_cont.simps)
  next
    case False
    have "m div 128 < 128 ^ k" using Suc.prems by (simp add: less_mult_imp_div_less mult.commute)
    from Suc.IH [OF this] have "length (vlq_cont (m div 128)) \<le> k" .
    moreover have "vlq_cont m = vlq_cont (m div 128) @ [of_nat (128 + m mod 128)]"
      using False by (subst vlq_cont.simps) simp
    ultimately show ?thesis by simp
  qed
qed

lemma vlq_encode_shape: "vlq_shape (vlq_encode n)"
  using vlq_cont_all [of "n div 128"]
  by (simp add: vlq_shape_def vlq_encode_def unat_last_byte)

lemma vlq_encode_value: "vlq_value (vlq_encode n) = n"
  using vlq_cont_value [of 0 "n div 128"]
  by (simp add: vlq_value_def vlq_encode_def unat_last_byte)

lemma vlq_encode_length: "n < 2 ^ 28 \<Longrightarrow> length (vlq_encode n) \<le> 4"
proof -
  assume "n < 2 ^ 28"
  then have "n div 128 < 128 ^ 3" by simp
  then have "length (vlq_cont (n div 128)) \<le> 3" by (rule vlq_cont_length)
  then show ?thesis by (simp add: vlq_encode_def)
qed


lemma vlq_prefix_stop:
  "bs \<noteq> [] \<Longrightarrow>
     vlq_prefix bs = take (length (vlq_prefix bs)) bs
     \<and> list_all (\<lambda>b. 128 \<le> unat b) (butlast (vlq_prefix bs))
     \<and> (unat (last (vlq_prefix bs)) < 128 \<or> vlq_prefix bs = bs)"
proof (induction bs)
  case Nil
  then show ?case by simp
next
  case (Cons b bs)
  show ?case
  proof (cases "bs = []")
    case True
    then show ?thesis by (simp add: high_bit_iff)
  next
    case False
    with Cons.IH vlq_prefix_nonempty [OF False] show ?thesis
      by (simp add: high_bit_iff)
  qed
qed

lemma unat_add_length:
  fixes off len :: size_t
  assumes "unat off + k \<le> unat len"
  shows "unat (off + of_nat k) = unat off + k"
proof -
  have "unat len < 2 ^ 64" using unsigned_less [of len] by simp
  then have b: "unat off + k < 2 ^ 64" "k < 2 ^ 64" using assms by linarith+
  then have "unat (of_nat k :: size_t) = k" by (simp add: unat_of_nat)
  then show ?thesis using b by (simp add: unat_add_lem [THEN iffD1])
qed

text \<open>
  C1, as amended. With the cursor at or past the end the decoder returns 0 and consumes
  nothing. Otherwise it consumes at least one byte and has no upper limit of four: it
  consumes the bytes up to and including the first one whose high bit is clear, or up to
  the buffer end, never reads past that end, and returns the accumulation
  \<open>result = (result << 7) | (byte & 0x7F)\<close> over them, which is the base-128 value of the
  consumed bytes modulo \<open>2 ^ 32\<close>. A complete encoding of one to four bytes at the cursor
  is consumed exactly and its integer is returned; a sequence cut off by the buffer end is
  consumed up to the end and its partial value is returned.
\<close>

theorem decode_variable_length_consumes_to_terminator:
  assumes "data track = Some d" and "unat (length_t track) \<le> length d"
  shows "(length_t track \<le> offset track \<longrightarrow> decode_variable_length track = Inr (0, track))
    \<and> (offset track < length_t track \<longrightarrow>
         (let rest = drop (unat (offset track)) (take (unat (length_t track)) d);
              p = vlq_prefix rest
          in decode_variable_length track =
               Inr (vlq_accum 0 p, track\<lparr>offset := offset track + of_nat (length p)\<rparr>)
           \<and> p = take (length p) rest
           \<and> 1 \<le> length p
           \<and> unat (offset track + of_nat (length p)) = unat (offset track) + length p
           \<and> unat (offset track) + length p \<le> unat (length_t track)
           \<and> list_all (\<lambda>b. 128 \<le> unat b) (butlast p)
           \<and> (unat (last p) < 128 \<or> p = rest)
           \<and> vlq_accum 0 p = of_nat (vlq_value p)
           \<and> (\<forall>bs tl. rest = bs @ tl \<and> vlq_shape bs \<longrightarrow> p = bs)
           \<and> (\<forall>bs tl. rest = bs @ tl \<and> vlq_shape bs \<and> length bs \<le> 4 \<longrightarrow>
                 sint (vlq_accum 0 p) = int (vlq_value bs))
           \<and> (\<forall>n tl. n < 2 ^ 28 \<and> rest = vlq_encode n @ tl \<longrightarrow>
                 p = vlq_encode n \<and> length p \<le> 4 \<and> sint (vlq_accum 0 p) = int n)
           \<and> (list_all (\<lambda>b. 128 \<le> unat b) rest \<longrightarrow>
                 p = rest \<and> unat (offset track) + length p = unat (length_t track))))"
proof (intro conjI impI)
  assume "length_t track \<le> offset track"
  then show "decode_variable_length track = Inr (0, track)"
    by (simp add: decode_variable_length_def)
next
  assume lt: "offset track < length_t track"
  define rest where "rest = drop (unat (offset track)) (take (unat (length_t track)) d)"
  define p where "p = vlq_prefix rest"
  have ltn: "unat (offset track) < unat (length_t track)"
    using lt by (simp add: word_less_nat_alt)
  have len_rest: "length rest = unat (length_t track) - unat (offset track)"
    using assms(2) by (simp add: rest_def)
  then have ne: "rest \<noteq> []" using ltn by auto
  from decode_loop_run [OF assms lt, of 0]
  have run: "decode_loop track 0 = Inr (vlq_accum 0 p, track\<lparr>offset := offset track + of_nat (length p)\<rparr>)"
    and fit: "unat (offset track) + length p \<le> unat (length_t track)"
    by (simp_all add: p_def rest_def)
  have dec: "decode_variable_length track =
      Inr (vlq_accum 0 p, track\<lparr>offset := offset track + of_nat (length p)\<rparr>)"
    using lt run by (simp add: decode_variable_length_def not_le [symmetric])
  have stop: "p = take (length p) rest" "list_all (\<lambda>b. 128 \<le> unat b) (butlast p)"
    "unat (last p) < 128 \<or> p = rest"
    using vlq_prefix_stop [OF ne] by (simp_all add: p_def)
  have one: "1 \<le> length p"
    using vlq_prefix_nonempty [OF ne] by (cases p) (simp_all add: p_def)
  have shape: "p = bs" if "rest = bs @ tl" "vlq_shape bs" for bs tl
    using that vlq_prefix_shape [of bs tl] by (simp add: p_def)
  have val: "sint (vlq_accum 0 p) = int (vlq_value bs)"
    if "rest = bs @ tl" "vlq_shape bs" "length bs \<le> 4" for bs tl
    using shape [OF that(1,2)] sint_small [OF vlq_value_small [OF that(3)] ]
    by (simp add: vlq_accum_value)
  have enc: "p = vlq_encode n \<and> length p \<le> 4 \<and> sint (vlq_accum 0 p) = int n"
    if "n < 2 ^ 28" "rest = vlq_encode n @ tl" for n tl
    using shape [OF that(2) vlq_encode_shape] vlq_encode_length [OF that(1)]
      val [OF that(2) vlq_encode_shape vlq_encode_length [OF that(1)] ]
    by (simp add: vlq_encode_value)
  have trunc: "p = rest \<and> unat (offset track) + length p = unat (length_t track)"
    if "list_all (\<lambda>b. 128 \<le> unat b) rest"
    using vlq_prefix_truncated [OF that] len_rest ltn by (simp add: p_def)
  show "let rest = drop (unat (offset track)) (take (unat (length_t track)) d);
            p = vlq_prefix rest
        in decode_variable_length track =
               Inr (vlq_accum 0 p, track\<lparr>offset := offset track + of_nat (length p)\<rparr>)
           \<and> p = take (length p) rest
           \<and> 1 \<le> length p
           \<and> unat (offset track + of_nat (length p)) = unat (offset track) + length p
           \<and> unat (offset track) + length p \<le> unat (length_t track)
           \<and> list_all (\<lambda>b. 128 \<le> unat b) (butlast p)
           \<and> (unat (last p) < 128 \<or> p = rest)
           \<and> vlq_accum 0 p = of_nat (vlq_value p)
           \<and> (\<forall>bs tl. rest = bs @ tl \<and> vlq_shape bs \<longrightarrow> p = bs)
           \<and> (\<forall>bs tl. rest = bs @ tl \<and> vlq_shape bs \<and> length bs \<le> 4 \<longrightarrow>
                 sint (vlq_accum 0 p) = int (vlq_value bs))
           \<and> (\<forall>n tl. n < 2 ^ 28 \<and> rest = vlq_encode n @ tl \<longrightarrow>
                 p = vlq_encode n \<and> length p \<le> 4 \<and> sint (vlq_accum 0 p) = int n)
           \<and> (list_all (\<lambda>b. 128 \<le> unat b) rest \<longrightarrow>
                 p = rest \<and> unat (offset track) + length p = unat (length_t track))"
    unfolding Let_def rest_def [symmetric] p_def [symmetric]
    using dec stop one unat_add_length [OF fit] fit vlq_accum_value [of p] shape val enc trunc
    by blast
qed


theorem decode_variable_length_consumes_to_terminator_witness:
  "decode_variable_length vlq_track = Inr (0x80, vlq_track\<lparr>offset := 3\<rparr>)
   \<and> vlq_encode 128 = [0x81, 0x00]
   \<and> sint (0x80 :: c_int) = 128
   \<and> decode_variable_length truncated_track = Inr (0x82, truncated_track\<lparr>offset := 2\<rparr>)
   \<and> decode_variable_length (truncated_track\<lparr>offset := 2\<rparr>)
        = Inr (0, truncated_track\<lparr>offset := 2\<rparr>)"
proof -
  have enc: "vlq_encode 128 = [0x81, 0x00]"
    by code_simp
  have a: "data vlq_track = Some [0x90, 0x81, 0x00, 0xFF]"
    "unat (length_t vlq_track) \<le> length [0x90, 0x81, 0x00, 0xFF :: uint8_t]"
    "offset vlq_track < length_t vlq_track"
    "drop (unat (offset vlq_track)) (take (unat (length_t vlq_track)) [0x90, 0x81, 0x00, 0xFF :: uint8_t])
       = vlq_encode 128 @ [0xFF]"
    by (simp_all add: vlq_track_def enc)
  have b: "data truncated_track = Some [0x81, 0x82]"
    "unat (length_t truncated_track) \<le> length [0x81, 0x82 :: uint8_t]"
    "offset truncated_track < length_t truncated_track"
    "drop (unat (offset truncated_track)) (take (unat (length_t truncated_track)) [0x81, 0x82 :: uint8_t])
       = [0x81, 0x82]"
    "list_all (\<lambda>b. 128 \<le> unat b) [0x81, 0x82 :: uint8_t]"
    by (simp_all add: truncated_track_def)
  have c: "data (truncated_track\<lparr>offset := 2\<rparr>) = Some [0x81, 0x82]"
    "unat (length_t (truncated_track\<lparr>offset := 2\<rparr>)) \<le> length [0x81, 0x82 :: uint8_t]"
    "length_t (truncated_track\<lparr>offset := 2\<rparr>) \<le> offset (truncated_track\<lparr>offset := 2\<rparr>)"
    by (simp_all add: truncated_track_def)
  have v: "vlq_accum 0 [0x81, 0x00] = 0x80" "vlq_accum 0 [0x81, 0x82] = 0x82"
    by (simp_all add: vlq_accum_def)
  have s: "sint (0x80 :: c_int) = 128" by simp
  from decode_variable_length_consumes_to_terminator [OF a(1,2)] a(3,4)
  have r1: "decode_variable_length vlq_track = Inr (0x80, vlq_track\<lparr>offset := 3\<rparr>)"
    by (simp add: Let_def enc v vlq_track_def)
  from decode_variable_length_consumes_to_terminator [OF b(1,2)] b(3,4,5)
  have r2: "decode_variable_length truncated_track = Inr (0x82, truncated_track\<lparr>offset := 2\<rparr>)"
    by (simp add: Let_def v truncated_track_def)
  from decode_variable_length_consumes_to_terminator [OF c(1,2)] c(3)
  have r3: "decode_variable_length (truncated_track\<lparr>offset := 2\<rparr>)
        = Inr (0, truncated_track\<lparr>offset := 2\<rparr>)"
    by simp
  show ?thesis using r1 r2 r3 enc s by simp
qed

text \<open>
  C1, as stated, bounds the bytes consumed by four. The buffer below holds four bytes with
  the high bit set and then a zero byte: the decoder consumes all five.
\<close>

theorem decode_variable_length_consumes_five_bytes:
  "decode_variable_length five_byte_track = Inr (0x10000000, five_byte_track\<lparr>offset := 5\<rparr>)
   \<and> \<not> unat (offset (five_byte_track\<lparr>offset := 5\<rparr>)) - unat (offset five_byte_track) \<le> 4"
  by code_simp

section \<open>Decoding steps on malformed tracks\<close>

text \<open>
  C2. The claim: every decode step keeps \<open>offset \<le> length\<close> and reads no byte outside
  the buffer, and a meta length beyond the remaining bytes is clamped. Three tracks, each
  in the state that \<open>play_midi\<close> reaches after \<open>update_command\<close> has taken the status
  byte. In \<open>00 FF 01 05 41\<close> the meta event declares five payload bytes where one is left:
  \<open>update_message\<close> copies five bytes from index 4 of a 5-byte buffer. In \<open>00 90 3C\<close> the
  second data byte is missing: \<open>update_message\<close> reads index 3 of a 3-byte buffer. In
  \<open>00 F0\<close> nothing follows the SysEx status: \<open>update_message\<close> returns with offset 3
  in a buffer of length 2, and the next \<open>update_command\<close> reads index 3.
\<close>

theorem update_message_reads_past_buffer_end:
  "load_track [0x00, 0xFF, 0x01, 0x05, 0x41] (replicate 256 0)
       = Inr (meta_overrun_track\<lparr>offset := 1, message := 0\<rparr>)
   \<and> update_command (meta_overrun_track\<lparr>offset := 1, message := 0\<rparr>) = Inr meta_overrun_track
   \<and> update_message meta_overrun_track = Inl OutOfBounds
   \<and> decode_variable_length (meta_overrun_track\<lparr>temp := 0x100, offset := 3\<rparr>)
       = Inr (5, meta_overrun_track\<lparr>temp := 0x100, offset := 4\<rparr>)
   \<and> fst (load_and_play 2 [ [0x00, 0xFF, 0x01, 0x05, 0x41] ] (replicate 256 0) 480 True True)
       = Fault OutOfBounds
   \<and> load_track [0x00, 0x90, 0x3C] (replicate 256 0)
       = Inr (short_note_track\<lparr>offset := 1, message := 0\<rparr>)
   \<and> update_command (short_note_track\<lparr>offset := 1, message := 0\<rparr>) = Inr short_note_track
   \<and> update_message short_note_track = Inl OutOfBounds
   \<and> fst (load_and_play 2 [ [0x00, 0x90, 0x3C] ] (replicate 256 0) 480 True True)
       = Fault OutOfBounds
   \<and> load_track [0x00, 0xF0] (replicate 256 0)
       = Inr (sysex_end_track\<lparr>offset := 1, message := 0\<rparr>)
   \<and> update_command (sysex_end_track\<lparr>offset := 1, message := 0\<rparr>) = Inr sysex_end_track
   \<and> update_message sysex_end_track = Inr (sysex_end_track\<lparr>offset := 3\<rparr>)
   \<and> length_t (sysex_end_track\<lparr>offset := 3\<rparr>) < offset (sysex_end_track\<lparr>offset := 3\<rparr>)
   \<and> update_command (sysex_end_track\<lparr>offset := 3\<rparr>) = Inl OutOfBounds"
  by code_simp


section \<open>Running status\<close>

lemma running_status_keeps_status_and_cursor:
  assumes "data track = Some d" and "length_t track \<noteq> 0"
    and "rd d (offset track) = Inr b" and "b < 0x80"
  shows "update_command track = Inr track"
  using assms by (simp add: update_command_def not_le [symmetric])

lemma two_data_bytes_merge:
  assumes "data track = Some d" and "length_t track \<noteq> 0"
    and "ucast (message track AND 0xFF) < (0xC0 :: uint8_t)"
    and "rd d (offset track) = Inr b0" and "rd d (offset track + 1) = Inr b1"
  shows "update_message track =
     Inr (track\<lparr>temp := push_bit 8 (ucast b0) OR push_bit 16 (ucast b1),
                offset := offset track + 2,
                message := message track OR (push_bit 8 (ucast b0) OR push_bit 16 (ucast b1))\<rparr>)"
  using assms by (simp add: update_message_def two_data_bytes_def)

text \<open>
  C7. The claim: under running status the latched status byte is reused, the cursor does
  not advance for the status slot, and the byte at the cursor becomes the first data byte
  of the event. The track \<open>00 90 3C 40 00 43 40 00 FF 2F 00\<close> holds a Note-On (note
  \<open>0x3C\<close>, velocity \<open>0x40\<close>) and then, under running status, the data bytes \<open>43 40\<close>.
  \<open>running_status_track\<close> is the state before the second event. \<open>update_command\<close>
  leaves it unchanged; \<open>update_message\<close> then merges the new data bytes into the bytes
  of the previous event, so the event is dispatched with note \<open>0x7F\<close>, which is
  \<open>0x3C | 0x43\<close>, where the byte at the cursor was \<open>0x43\<close>.
\<close>

theorem running_status_merges_previous_data_bytes:
  "update_command running_status_track = Inr running_status_track
   \<and> update_message running_status_track
       = Inr (running_status_track\<lparr>offset := 7, message := 0x407F90, temp := 0x404300\<rparr>)
   \<and> status_byte 0x407F90 = 0x90
   \<and> note_of 0x407F90 = 0x7F
   \<and> note_of 0x407F90 \<noteq> 0x43
   \<and> calls (snd (load_and_play 3 [ [0x00, 0x90, 0x3C, 0x40, 0x00, 0x43, 0x40, 0x00, 0xFF, 0x2F, 0x00] ]
                     (replicate 256 0) 480 True True))
       = [(0, NoteOnCall 0x40 0 0x3C), (0, NoteOnCall 0x40 0 0x7F)]"
  by code_simp

section \<open>The multiplier before the first tempo event\<close>

text \<open>
  C6. The claim: at every delay computation, also before any Set-Tempo event, the
  multiplier is at least 1. The track \<open>00 90 3C 40 60 80 3C 00 00 FF 2F 00\<close>, played at
  division 480, has no Set-Tempo event; \<open>play_midi\<close> starts with \<open>multiplier = 0\<close> and
  evaluates \<open>old = delta_tick * multiplier\<close> once, for 96 ticks, with that multiplier 0.
\<close>

theorem multiplier_is_zero_before_first_tempo_event:
  "delays (snd (load_and_play 3 [ [0x00, 0x90, 0x3C, 0x40, 0x60, 0x80, 0x3C, 0x00, 0x00, 0xFF, 0x2F, 0x00] ]
                  (replicate 256 0) 480 True True))
     = [(0x60, Finite 0)]
   \<and> fst (load_and_play 3 [ [0x00, 0x90, 0x3C, 0x40, 0x60, 0x80, 0x3C, 0x00, 0x00, 0xFF, 0x2F, 0x00] ]
                  (replicate 256 0) 480 True True)
     = Finished
   \<and> multiplier_p (init_player []) = Finite 0
   \<and> bpm_p (init_player []) = 500000
   \<and> double_less (Finite 0) 1"
  by code_simp


section \<open>Tracks that never become inactive\<close>

lemma process_meta_event_end_of_track:
  assumes "ucast (drop_bit 8 (message track) AND 0xFF) = (0x2F :: uint8_t)"
  shows "process_meta_event track m b td = Inr (track\<lparr>data := None, length_t := 0\<rparr>, m, b)"
  using assms by (simp add: process_meta_event_def)

lemma play_event_empty_track:
  assumes "tracks s = [empty_track]"
  shows "play_event td on_cb off_cb 0 s = (None, s)"
proof -
  have a: "update_command empty_track = Inr empty_track"
    "update_message empty_track = Inr empty_track"
    by (simp_all add: update_command_def update_message_def empty_track_def)
  have b: "update_tick empty_track = Inr empty_track"
    by (simp add: update_tick_def decode_variable_length_def empty_track_def)
  have c: "command (message empty_track) = 0" "status_byte (message empty_track) = 0"
    "data empty_track \<noteq> None" "note_calls on_cb off_cb (message empty_track) = []"
    by (simp_all add: command_def status_byte_def note_calls_def empty_track_def)
  show ?thesis
    using assms by (simp add: play_event_def a b c)
qed

lemma due_empty_track:
  assumes "tracks s = [empty_track]"
  shows "due 0 s"
  using assms by (simp add: due_def empty_track_def)

lemma drain_empty_track:
  assumes "tracks s = [empty_track]"
  shows "drain_track n td on_cb off_cb 0 s = (OutOfFuel, s)"
  using assms
  by (induction n) (simp_all add: due_empty_track play_event_empty_track)

text \<open>
  C4. The claim: a track becomes inactive when its End-of-Track event is processed or
  when its buffer is exhausted, and the session terminates for every input. A track chunk
  of length zero gives a track whose buffer is exhausted from the start and whose
  \<open>data\<close> pointer is not null: the inner loop of \<open>play_midi\<close> then repeats without
  consuming a byte and without changing the state, whatever bounds are put on the
  iterations of the two loops. A track that ends without an End-of-Track event
  (\<open>00 90 3C 40\<close>) is still active when its buffer is exhausted, and the next
  \<open>update_command\<close> reads past its end.
\<close>

theorem empty_track_never_deactivated:
  "load_tracks [ [] ] (replicate 256 0) = Inr [empty_track]
   \<and> play_loop m n td on_cb off_cb (init_player [empty_track])
       = (OutOfFuel, init_player [empty_track])
   \<and> fst (load_and_play n [ [] ] (replicate 256 0) td on_cb off_cb) = OutOfFuel
   \<and> fst (load_and_play 3 [ [0x00, 0x90, 0x3C, 0x40] ] (replicate 256 0) 480 True True)
       = Fault OutOfBounds
   \<and> map data (tracks (snd (load_and_play 3 [ [0x00, 0x90, 0x3C, 0x40] ] (replicate 256 0) 480 True True)))
       = [Some [0x00, 0x90, 0x3C, 0x40] ]"
proof -
  have l: "load_tracks [ [] ] (replicate 256 0) = Inr [empty_track]"
    by (simp add: load_track_def update_tick_def decode_variable_length_def empty_track_def)
  have t: "tracks (init_player [empty_track]) = [empty_track]"
    by (simp add: init_player_def)
  have d: "data (tracks (init_player [empty_track]) ! 0) \<noteq> None"
    by (simp add: init_player_def empty_track_def)
  have p: "play_loop m n td on_cb off_cb (init_player [empty_track])
       = (OutOfFuel, init_player [empty_track])" for m n
    using d by (cases m) (simp_all add: t drain_empty_track [OF t])
  have e: "fst (load_and_play 3 [ [0x00, 0x90, 0x3C, 0x40] ] (replicate 256 0) 480 True True)
       = Fault OutOfBounds
     \<and> map data (tracks (snd (load_and_play 3 [ [0x00, 0x90, 0x3C, 0x40] ] (replicate 256 0) 480 True True)))
       = [Some [0x00, 0x90, 0x3C, 0x40] ]"
    by code_simp
  show ?thesis
    using l p e by (simp add: load_and_play_def play_midi_def)
qed

section \<open>The order of the emitted events\<close>

lemma touches_refl: "touches js s s"
  by (simp add: touches_def)

lemma touches_trans:
  assumes "touches js s s1" and "touches ks s1 s2"
  shows "touches (js \<union> ks) s s2"
proof -
  from assms obtain cs ds where
    "calls s1 = calls s @ map (Pair (tick_p s)) cs"
    "calls s2 = calls s1 @ map (Pair (tick_p s1)) ds"
    by (auto simp add: touches_def)
  moreover have "tick_p s1 = tick_p s" using assms(1) by (simp add: touches_def)
  ultimately have "calls s2 = calls s @ map (Pair (tick_p s)) (cs @ ds)" by simp
  then have "\<exists>cs. calls s2 = calls s @ map (Pair (tick_p s)) cs" by blast
  then show ?thesis using assms by (simp add: touches_def)
qed

lemma touches_mono: "touches js s s' \<Longrightarrow> js \<subseteq> ks \<Longrightarrow> touches ks s s'"
  by (auto simp add: touches_def)

lemma play_event_touches: "touches {i} s (snd (play_event td on_cb off_cb i s))"
proof -
  have up: "touches {i} s (s\<lparr>tracks := (tracks s)[i := t]\<rparr>)" for t
    by (simp add: touches_def)
  show ?thesis
    unfolding play_event_def
    by (auto simp add: touches_def Let_def split: sum.splits prod.splits)
qed


lemma drain_track_touches:
  "drain_track n td on_cb off_cb i s = (st, s') \<Longrightarrow>
     touches {i} s s' \<and> (st = Finished \<longrightarrow> \<not> due i s')"
proof (induction n arbitrary: s)
  case 0
  then show ?case by (auto simp add: touches_refl split: if_splits)
next
  case (Suc n)
  show ?case
  proof (cases "due i s")
    case False
    with Suc.prems show ?thesis by (auto simp add: touches_refl)
  next
    case True
    obtain r s1 where pe: "play_event td on_cb off_cb i s = (r, s1)"
      by (cases "play_event td on_cb off_cb i s")
    have t1: "touches {i} s s1" using play_event_touches [of i s td on_cb off_cb] pe by simp
    show ?thesis
    proof (cases r)
      case (Some e)
      with Suc.prems True pe t1 show ?thesis by auto
    next
      case None
      with Suc.prems True pe have "drain_track n td on_cb off_cb i s1 = (st, s')" by simp
      from Suc.IH [OF this] have "touches {i} s1 s'" and fin: "st = Finished \<longrightarrow> \<not> due i s'"
        by simp_all
      with t1 have "touches ({i} \<union> {i}) s s'" by (intro touches_trans)
      then show ?thesis using fin by simp
    qed
  qed
qed

lemma for_tracks_touches:
  "for_tracks n td on_cb off_cb js s active = (st, s', active') \<Longrightarrow> touches (set js) s s'"
proof (induction js arbitrary: s active)
  case Nil
  then show ?case by (simp add: touches_refl)
next
  case (Cons i js)
  show ?case
  proof (cases "data (tracks s ! i) \<noteq> None")
    case False
    with Cons.prems have "for_tracks n td on_cb off_cb js s active = (st, s', active')" by simp
    from Cons.IH [OF this] show ?thesis by (rule touches_mono) auto
  next
    case True
    obtain st1 s1 where dr: "drain_track n td on_cb off_cb i s = (st1, s1)"
      by (cases "drain_track n td on_cb off_cb i s")
    from drain_track_touches [OF dr] have t1: "touches {i} s s1" by simp
    show ?thesis
    proof (cases "st1 = Finished")
      case False
      with Cons.prems True dr have "s' = s1" by (cases st1) simp_all
      with t1 show ?thesis by (auto intro: touches_mono)
    next
      case fin: True
      with Cons.prems True dr
      have "for_tracks n td on_cb off_cb js s1
              (if data (tracks s1 ! i) \<noteq> None then active @ [i] else active) = (st, s', active')"
        by simp
      from Cons.IH [OF this] have "touches (set js) s1 s'" .
      with t1 have "touches ({i} \<union> set js) s s'" by (rule touches_trans)
      then show ?thesis by simp
    qed
  qed
qed

text \<open>
  After a completed pass of the for loop, \<open>active_tracks\<close> holds the tracks that still
  have data, and none of them is due.
\<close>

lemma for_tracks_active:
  assumes "for_tracks n td on_cb off_cb js s active = (Finished, s', active')"
    and "distinct js"
  shows "set active' = set active \<union> {i \<in> set js. data (tracks s' ! i) \<noteq> None}
     \<and> (\<forall>i \<in> set js. \<not> due i s')"
  using assms
proof (induction js arbitrary: s active)
  case Nil
  then show ?case by simp
next
  case (Cons i js)
  have ni: "i \<notin> set js" and dj: "distinct js" using Cons.prems(2) by simp_all
  show ?case
  proof (cases "data (tracks s ! i) \<noteq> None")
    case False
    with Cons.prems have run: "for_tracks n td on_cb off_cb js s active = (Finished, s', active')"
      by simp
    from for_tracks_touches [OF run] ni have same: "tracks s' ! i = tracks s ! i"
      by (simp add: touches_def)
    with False have "data (tracks s' ! i) = None" "\<not> due i s'" by (simp_all add: due_def)
    with Cons.IH [OF run dj] show ?thesis by auto
  next
    case True
    obtain st1 s1 where dr: "drain_track n td on_cb off_cb i s = (st1, s1)"
      by (cases "drain_track n td on_cb off_cb i s")
    have fin: "st1 = Finished"
      using Cons.prems(1) True dr by (cases st1) simp_all
    with Cons.prems(1) True dr
    have run: "for_tracks n td on_cb off_cb js s1
              (if data (tracks s1 ! i) \<noteq> None then active @ [i] else active) = (Finished, s', active')"
      by simp
    from drain_track_touches [OF dr] fin have nd: "\<not> due i s1" by simp
    from for_tracks_touches [OF run] ni
    have same: "tracks s' ! i = tracks s1 ! i" and tk: "tick_p s' = tick_p s1"
      by (simp_all add: touches_def)
    from nd same tk have nd': "\<not> due i s'" by (simp add: due_def)
    from Cons.IH [OF run dj] same nd' show ?thesis by auto
  qed
qed


lemma foldl_min:
  fixes x :: "nat \<Rightarrow> uint64_t"
  shows "foldl (\<lambda>d i. if x i < d then x i else d) d js = Min (insert d (x ` set js))"
proof (induction js arbitrary: d)
  case Nil
  then show ?case by simp
next
  case (Cons j js)
  have "(if x j < d then x j else d) = min (x j) d"
  proof (cases "x j < d")
    case True
    then have "x j \<le> d" by (rule less_imp_le)
    then have "min (x j) d = x j" by (rule min.absorb1)
    with True show ?thesis by simp
  next
    case False
    then have "d \<le> x j" by (simp add: not_less)
    then have "min (x j) d = d" by (rule min.absorb2)
    with False show ?thesis by simp
  qed
  then have "foldl (\<lambda>d i. if x i < d then x i else d) d (j # js)
      = Min (insert (min (x j) d) (x ` set js))"
    using Cons.IH [of "min (x j) d"] by simp
  also have "\<dots> = Min (insert d (x ` set (j # js)))"
  proof (cases "x ` set js = {}")
    case True
    then show ?thesis by (simp add: min.commute)
  next
    case False
    then show ?thesis by (simp add: min.assoc min.commute min.left_commute)
  qed
  finally show ?case .
qed

lemma next_delta_tick_Min:
  assumes "active \<noteq> []" and "\<forall>i \<in> set active. data (tracks s ! i) \<noteq> None"
  shows "next_delta_tick s active
     = Min ((\<lambda>i. scast (tick (tracks s ! i)) - tick_p s) ` set active)"
proof -
  let ?x = "\<lambda>i. (scast (tick (tracks s ! i)) :: uint64_t) - tick_p s"
  have "foldl (\<lambda>delta_tick idx.
              if data (tracks s ! idx) \<noteq> None
              then (let track_delta = ?x idx
                    in if track_delta < delta_tick then track_delta else delta_tick)
              else delta_tick) d active
      = foldl (\<lambda>d i. if ?x i < d then ?x i else d) d active" for d
    using assms(2) by (induction active arbitrary: d) (simp_all add: Let_def)
  then have "next_delta_tick s active = Min (insert (- 1) (?x ` set active))"
    by (simp add: next_delta_tick_def foldl_min)
  also have "\<dots> = min (- 1) (Min (?x ` set active))"
    using assms(1) by (intro Min_insert) simp_all
  also have "\<dots> = Min (?x ` set active)"
    by (rule min.absorb2) (rule word_n1_ge)
  finally show ?thesis .
qed

lemma scheduler_iteration:
  assumes run: "for_tracks n td on_cb off_cb [0 ..< length (tracks s)] s [] = (Finished, s', active)"
  shows "touches {..< length (tracks s)} s s'"
    and "set active = {i. i < length (tracks s') \<and> data (tracks s' ! i) \<noteq> None}"
    and "\<forall>i \<in> set active. tick_p s' < scast (tick (tracks s' ! i))"
    and "active \<noteq> [] \<Longrightarrow>
           next_delta_tick s' active
             = Min ((\<lambda>i. scast (tick (tracks s' ! i)) - tick_p s') ` set active)
         \<and> tick_p s' < tick_p s' + next_delta_tick s' active
         \<and> tick_p s' + next_delta_tick s' active \<in> (\<lambda>i. scast (tick (tracks s' ! i))) ` set active"
proof -
  from for_tracks_touches [OF run] show t: "touches {..< length (tracks s)} s s'"
    by (simp add: atLeast_upt [symmetric] lessThan_atLeast0)
  then have len: "length (tracks s') = length (tracks s)" by (simp add: touches_def)
  from for_tracks_active [OF run] have
    a: "set active = {i \<in> set [0 ..< length (tracks s)]. data (tracks s' ! i) \<noteq> None}"
    and nd: "\<forall>i \<in> set [0 ..< length (tracks s)]. \<not> due i s'"
    by simp_all
  from a len show s: "set active = {i. i < length (tracks s') \<and> data (tracks s' ! i) \<noteq> None}"
    by auto
  show later: "\<forall>i \<in> set active. tick_p s' < scast (tick (tracks s' ! i))"
  proof
    fix i
    assume "i \<in> set active"
    with a have "i \<in> set [0 ..< length (tracks s)]" "data (tracks s' ! i) \<noteq> None"
      by simp_all
    with nd have "\<not> due i s'" by blast
    with \<open>data (tracks s' ! i) \<noteq> None\<close> show "tick_p s' < scast (tick (tracks s' ! i))"
      by (simp add: due_def not_le)
  qed
  show "next_delta_tick s' active
             = Min ((\<lambda>i. scast (tick (tracks s' ! i)) - tick_p s') ` set active)
         \<and> tick_p s' < tick_p s' + next_delta_tick s' active
         \<and> tick_p s' + next_delta_tick s' active \<in> (\<lambda>i. scast (tick (tracks s' ! i))) ` set active"
    if ne: "active \<noteq> []"
  proof -
    let ?x = "\<lambda>i. (scast (tick (tracks s' ! i)) :: uint64_t) - tick_p s'"
    have dn: "\<forall>i \<in> set active. data (tracks s' ! i) \<noteq> None" using s by auto
    have m: "next_delta_tick s' active = Min (?x ` set active)"
      using ne dn by (rule next_delta_tick_Min)
    have "Min (?x ` set active) \<in> ?x ` set active"
      using ne by (intro Min_in) simp_all
    then obtain j where j: "j \<in> set active" and dj: "next_delta_tick s' active = ?x j"
      using m by auto
    have sum: "tick_p s' + next_delta_tick s' active = scast (tick (tracks s' ! j))"
      using dj by simp
    with later j m show ?thesis by auto
  qed
qed


lemma touches_in_tick_order:
  assumes "in_tick_order s" and "touches js s s'"
  shows "in_tick_order s'"
proof -
  from assms(2) obtain cs where c: "calls s' = calls s @ map (Pair (tick_p s)) cs"
    and t: "tick_p s' = tick_p s"
    by (auto simp add: touches_def)
  have m: "map (fst \<circ> Pair (tick_p s)) cs = replicate (length cs) (tick_p s)"
    by (induction cs) simp_all
  have le: "\<forall>x \<in> set (map fst (calls s)). x \<le> tick_p s"
    using assms(1) by (auto simp add: in_tick_order_def list_all_iff)
  have "sorted (map fst (calls s) @ replicate (length cs) (tick_p s))"
    using assms(1) le by (simp add: sorted_append in_tick_order_def)
  moreover have "list_all (\<lambda>c. fst c \<le> tick_p s) (calls s @ map (Pair (tick_p s)) cs)"
    using assms(1) by (auto simp add: in_tick_order_def list_all_iff)
  ultimately show ?thesis by (simp add: in_tick_order_def c t m)
qed

lemma advance_in_tick_order:
  assumes "in_tick_order s" and "tick_p s \<le> t"
  shows "in_tick_order (s\<lparr>tick_p := t, delays := ds\<rparr>)"
  using assms by (auto simp add: in_tick_order_def list_all_iff)

lemma play_loop_in_tick_order:
  "in_tick_order s \<Longrightarrow> in_tick_order (snd (play_loop m n td on_cb off_cb s))"
proof (induction m arbitrary: s)
  case 0
  then show ?case by simp
next
  case (Suc m)
  obtain st s1 active where
    run: "for_tracks n td on_cb off_cb [0 ..< length (tracks s)] s [] = (st, s1, active)"
    by (cases "for_tracks n td on_cb off_cb [0 ..< length (tracks s)] s []") auto
  from for_tracks_touches [OF run] Suc.prems have o1: "in_tick_order s1"
    by (rule touches_in_tick_order [rotated])
  show ?case
  proof (cases "st = Finished \<and> active \<noteq> []")
    case False
    then have "snd (play_loop (Suc m) n td on_cb off_cb s) = s1"
      using run by (cases st) simp_all
    with o1 show ?thesis by simp
  next
    case True
    then have run': "for_tracks n td on_cb off_cb [0 ..< length (tracks s)] s [] = (Finished, s1, active)"
      and ne: "active \<noteq> []"
      using run by simp_all
    let ?s2 = "s1\<lparr>tick_p := tick_p s1 + next_delta_tick s1 active,
                   delays := delays s1 @ [(next_delta_tick s1 active, multiplier_p s1)]\<rparr>"
    from scheduler_iteration(4) [OF run' ne]
    have "tick_p s1 < tick_p s1 + next_delta_tick s1 active"
      by blast
    then have "tick_p s1 \<le> tick_p s1 + next_delta_tick s1 active"
      by (rule less_imp_le)
    with o1 have "in_tick_order ?s2" by (rule advance_in_tick_order)
    from Suc.IH [OF this] show ?thesis
      using run' ne by (simp add: Let_def)
  qed
qed

text \<open>
  Only \<open>update_tick\<close> writes a track's tick: the decoding steps and
  \<open>process_meta_event\<close> leave it as it is.
\<close>

lemma decode_loop_tick: "decode_loop t r = Inr (n, t') \<Longrightarrow> tick t' = tick t"
proof (induction t r rule: decode_loop.induct)
  case (1 track result)
  from "1.prems" show ?case
    apply (subst (asm) decode_loop.simps)
    apply (auto simp add: Let_def split: option.splits sum.splits if_splits dest!: "1.IH" [rotated -1])
    done
qed

lemma decode_variable_length_tick:
  "decode_variable_length t = Inr (n, t') \<Longrightarrow> tick t' = tick t"
  by (auto simp add: decode_variable_length_def split: if_splits dest: decode_loop_tick)

lemma update_command_tick: "update_command t = Inr t1 \<Longrightarrow> tick t1 = tick t"
  by (auto simp add: update_command_def Let_def split: if_splits option.splits sum.splits)

lemma long_message_tick: "long_message ty d t = Inr t1 \<Longrightarrow> tick t1 = tick t"
  by (auto simp add: long_message_def realloc_long_msg_def memcpy_long_msg_def Let_def
      split: if_splits option.splits sum.splits prod.splits dest!: decode_variable_length_tick)

lemma update_message_tick: "update_message t = Inr t1 \<Longrightarrow> tick t1 = tick t"
  by (auto simp add: update_message_def two_data_bytes_def one_data_byte_def Let_def
      split: if_splits option.splits sum.splits prod.splits dest!: long_message_tick)

lemma process_meta_event_tick:
  "process_meta_event t m b td = Inr (t3, m', b') \<Longrightarrow> tick t3 = tick t"
  by (auto simp add: process_meta_event_def Let_def split: if_splits option.splits sum.splits)


text \<open>
  One turn of the inner while loop on track \<open>i\<close>: every callback it invokes is logged
  with the global tick and with the tick that track \<open>i\<close> had when the turn began.
\<close>

lemma play_event_effect:
  "\<exists>t cs. tracks (snd (play_event td on_cb off_cb i s)) = (tracks s)[i := t]
     \<and> tick_p (snd (play_event td on_cb off_cb i s)) = tick_p s
     \<and> calls (snd (play_event td on_cb off_cb i s)) = calls s @ map (Pair (tick_p s)) cs
     \<and> call_ticks (snd (play_event td on_cb off_cb i s))
         = call_ticks s @ map (\<lambda>c. scast (tick (tracks s ! i))) cs
     \<and> (tick_decreased (snd (play_event td on_cb off_cb i s))
          \<longleftrightarrow> tick_decreased s
              \<or> (scast (tick t) :: uint64_t) < scast (tick (tracks s ! i)))"
proof (cases "update_command (tracks s ! i)")
  case (Inl e)
  then have "snd (play_event td on_cb off_cb i s) = s" by (simp add: play_event_def)
  then show ?thesis
    by (intro exI [of _ "tracks s ! i"] exI [of _ "[]"]) simp
next
  case c1: (Inr t1)
  note k1 = update_command_tick [OF c1]
  show ?thesis
  proof (cases "update_message t1")
    case (Inl e)
    then have "snd (play_event td on_cb off_cb i s) = s" using c1 by (simp add: play_event_def)
    then show ?thesis
      by (intro exI [of _ "tracks s ! i"] exI [of _ "[]"]) simp
  next
    case c2: (Inr t2)
    note k2 = update_message_tick [OF c2]
    let ?cs = "note_calls on_cb off_cb (message t2)"
    let ?s1 = "s\<lparr>tracks := (tracks s)[i := t2],
                 note_on_count := (if command (message t2) = 0x90 then note_on_count s + 1
                                   else note_on_count s),
                 calls := calls s @ map (Pair (tick_p s)) ?cs,
                 call_ticks := call_ticks s @ map (\<lambda>c. scast (tick t2)) ?cs\<rparr>"
    let ?m = "if command (message t2) \<noteq> 0x90 \<and> command (message t2) \<noteq> 0x80
                   \<and> status_byte (message t2) = 0xFF
              then process_meta_event t2 (multiplier_p ?s1) (bpm_p ?s1) td
              else Inr (t2, multiplier_p ?s1, bpm_p ?s1)"
    show ?thesis
    proof (cases ?m)
      case (Inl e)
      then have "snd (play_event td on_cb off_cb i s) = ?s1"
        using c1 c2 by (simp add: play_event_def Let_def)
      then show ?thesis using k1 k2
        by (intro exI [of _ t2] exI [of _ ?cs]) simp
    next
      case c3: (Inr r)
      obtain t3 m b where r: "r = (t3, m, b)" by (cases r)
      have k3: "tick t3 = tick t2"
        using c3 r by (auto split: if_splits dest: process_meta_event_tick)
      let ?s2 = "?s1\<lparr>tracks := (tracks ?s1)[i := t3], multiplier_p := m, bpm_p := b\<rparr>"
      show ?thesis
      proof (cases "if data t3 \<noteq> None then update_tick t3 else Inr t3")
        case (Inl e)
        then have "snd (play_event td on_cb off_cb i s) = ?s2"
          using c1 c2 c3 r by (simp add: play_event_def Let_def)
        then show ?thesis using k1 k2 k3
          by (intro exI [of _ t3] exI [of _ ?cs]) simp
      next
        case c4: (Inr t4)
        then have "snd (play_event td on_cb off_cb i s)
            = ?s2\<lparr>tracks := (tracks ?s2)[i := t4],
                   tick_decreased := (tick_decreased ?s2
                      \<or> (scast (tick t4) :: uint64_t) < scast (tick t3))\<rparr>"
          using c1 c2 c3 r by (simp add: play_event_def Let_def)
        then show ?thesis using k1 k2 k3
          by (intro exI [of _ t4] exI [of _ ?cs]) simp
      qed
    qed
  qed
qed


text \<open>
  A turn is taken only on a track that is due, so one whose tick is at most the global
  tick; while no track is earlier than the global tick the two are equal, and they stay so
  as long as \<open>update_tick\<close> does not lower the tick.
\<close>

lemma play_event_ticks_agree:
  assumes inv: "ticks_agree s" and due: "due i s" and i: "i < length (tracks s)"
  shows "ticks_agree (snd (play_event td on_cb off_cb i s))"
proof (cases "tick_decreased (snd (play_event td on_cb off_cb i s))")
  case True
  then show ?thesis by (simp add: ticks_agree_def)
next
  case False
  let ?s' = "snd (play_event td on_cb off_cb i s)"
  let ?x = "scast (tick (tracks s ! i)) :: uint64_t"
  from play_event_effect [of td on_cb off_cb i s] obtain t cs where
    tr: "tracks ?s' = (tracks s)[i := t]" and tk: "tick_p ?s' = tick_p s"
    and ca: "calls ?s' = calls s @ map (Pair (tick_p s)) cs"
    and ct: "call_ticks ?s' = call_ticks s @ map (\<lambda>c. ?x) cs"
    and fl: "tick_decreased ?s' \<longleftrightarrow> tick_decreased s \<or> (scast (tick t) :: uint64_t) < ?x"
    by blast
  from False fl have nf: "\<not> tick_decreased s" and up: "?x \<le> scast (tick t)"
    by (simp_all add: not_less)
  from inv nf have eq: "call_ticks s = map fst (calls s)"
    and ge: "\<forall>j < length (tracks s). data (tracks s ! j) \<noteq> None \<longrightarrow>
                tick_p s \<le> scast (tick (tracks s ! j))"
    by (simp_all add: ticks_agree_def)
  from due have d: "data (tracks s ! i) \<noteq> None" and le: "?x \<le> tick_p s"
    by (simp_all add: due_def)
  from ge i d have "tick_p s \<le> ?x" by blast
  with le have x: "?x = tick_p s" by (rule antisym)
  have a: "call_ticks ?s' = map fst (calls ?s')"
    by (simp add: ct ca eq x comp_def)
  have b: "tick_p ?s' \<le> scast (tick (tracks ?s' ! j))"
    if "j < length (tracks ?s')" and "data (tracks ?s' ! j) \<noteq> None" for j
  proof (cases "j = i")
    case True
    with i have "tracks ?s' ! j = t" by (simp add: tr)
    with up x show ?thesis by (simp add: tk)
  next
    case False
    then have "tracks ?s' ! j = tracks s ! j" by (simp add: tr)
    with that ge show ?thesis by (simp add: tr tk)
  qed
  from a b show ?thesis by (simp add: ticks_agree_def)
qed

lemma drain_track_ticks_agree:
  assumes "ticks_agree s" and "i < length (tracks s)"
  shows "ticks_agree (snd (drain_track n td on_cb off_cb i s))"
  using assms
proof (induction n arbitrary: s)
  case 0
  then show ?case by simp
next
  case (Suc n)
  show ?case
  proof (cases "due i s")
    case False
    with Suc.prems show ?thesis by simp
  next
    case True
    obtain r s1 where pe: "play_event td on_cb off_cb i s = (r, s1)"
      by (cases "play_event td on_cb off_cb i s")
    from play_event_ticks_agree [OF Suc.prems(1) True Suc.prems(2), of td on_cb off_cb] pe
    have a1: "ticks_agree s1" by simp
    from play_event_touches [of i s td on_cb off_cb] pe Suc.prems(2)
    have l1: "i < length (tracks s1)" by (simp add: touches_def)
    show ?thesis
    proof (cases r)
      case (Some e)
      with True pe a1 show ?thesis by simp
    next
      case None
      with True pe Suc.IH [OF a1 l1] show ?thesis by simp
    qed
  qed
qed

lemma for_tracks_ticks_agree:
  assumes "ticks_agree s" and "\<forall>i \<in> set js. i < length (tracks s)"
  shows "ticks_agree (fst (snd (for_tracks n td on_cb off_cb js s active)))"
  using assms
proof (induction js arbitrary: s active)
  case Nil
  then show ?case by simp
next
  case (Cons i js)
  show ?case
  proof (cases "data (tracks s ! i) \<noteq> None")
    case False
    with Cons.IH [of s active] Cons.prems show ?thesis by simp
  next
    case True
    obtain st1 s1 where dr: "drain_track n td on_cb off_cb i s = (st1, s1)"
      by (cases "drain_track n td on_cb off_cb i s")
    from Cons.prems have i: "i < length (tracks s)" by simp
    from drain_track_ticks_agree [OF Cons.prems(1) i, of n td on_cb off_cb] dr
    have a1: "ticks_agree s1" by simp
    from drain_track_touches [OF dr] have "length (tracks s1) = length (tracks s)"
      by (simp add: touches_def)
    with Cons.prems(2) have l1: "\<forall>j \<in> set js. j < length (tracks s1)" by simp
    show ?thesis
    proof (cases "st1 = Finished")
      case False
      with True dr a1 show ?thesis by (cases st1) simp_all
    next
      case fin: True
      with True dr
        Cons.IH [OF a1 l1, of "if data (tracks s1 ! i) \<noteq> None then active @ [i] else active"]
      show ?thesis by simp
    qed
  qed
qed

text \<open>
  The tick advance stops at the earliest of the tracks that still have data.
\<close>

lemma advance_ticks_agree:
  assumes run: "for_tracks n td on_cb off_cb [0 ..< length (tracks s)] s [] = (Finished, s', active)"
    and ne: "active \<noteq> []" and inv: "ticks_agree s'"
  shows "ticks_agree (s'\<lparr>tick_p := tick_p s' + next_delta_tick s' active, delays := ds\<rparr>)"
proof (cases "tick_decreased s'")
  case True
  then show ?thesis by (simp add: ticks_agree_def)
next
  case False
  with inv have eq: "call_ticks s' = map fst (calls s')" by (simp add: ticks_agree_def)
  note it = scheduler_iteration [OF run]
  let ?x = "\<lambda>i. (scast (tick (tracks s' ! i)) :: uint64_t) - tick_p s'"
  have m: "next_delta_tick s' active = Min (?x ` set active)"
    using it(4) [OF ne] by blast
  have "tick_p s' + next_delta_tick s' active \<le> scast (tick (tracks s' ! j))"
    if "j < length (tracks s')" and "data (tracks s' ! j) \<noteq> None" for j
  proof -
    from that it(2) have j: "j \<in> set active" by simp
    then have "Min (?x ` set active) \<le> ?x j" by (intro Min_le) simp_all
    then have d: "next_delta_tick s' active \<le> ?x j" by (simp only: m)
    from it(3) j have "tick_p s' < scast (tick (tracks s' ! j))" by blast
    then have "tick_p s' \<le> tick_p s' + ?x j" by simp
    with d have "tick_p s' + next_delta_tick s' active \<le> tick_p s' + ?x j"
      by (rule word_plus_mono_right)
    then show ?thesis by simp
  qed
  with eq show ?thesis by (simp add: ticks_agree_def)
qed

lemma play_loop_ticks_agree:
  "ticks_agree s \<Longrightarrow> ticks_agree (snd (play_loop m n td on_cb off_cb s))"
proof (induction m arbitrary: s)
  case 0
  then show ?case by simp
next
  case (Suc m)
  obtain st s1 active where
    run: "for_tracks n td on_cb off_cb [0 ..< length (tracks s)] s [] = (st, s1, active)"
    by (cases "for_tracks n td on_cb off_cb [0 ..< length (tracks s)] s []") auto
  have "ticks_agree (fst (snd (for_tracks n td on_cb off_cb [0 ..< length (tracks s)] s [])))"
    using Suc.prems by (rule for_tracks_ticks_agree) simp
  with run have a1: "ticks_agree s1" by simp
  show ?case
  proof (cases "st = Finished \<and> active \<noteq> []")
    case False
    then have "snd (play_loop (Suc m) n td on_cb off_cb s) = s1"
      using run by (cases st) simp_all
    with a1 show ?thesis by simp
  next
    case True
    then have run': "for_tracks n td on_cb off_cb [0 ..< length (tracks s)] s [] = (Finished, s1, active)"
      and ne: "active \<noteq> []"
      using run by simp_all
    from advance_ticks_agree [OF run' ne a1]
    have "ticks_agree (s1\<lparr>tick_p := tick_p s1 + next_delta_tick s1 active,
                   delays := delays s1 @ [(next_delta_tick s1 active, multiplier_p s1)]\<rparr>)" .
    from Suc.IH [OF this] show ?thesis
      using run' ne by (simp add: Let_def)
  qed
qed


text \<open>
  A delta-time that is not negative, added to a tick that is not negative, without
  overflow of the \<open>int\<close>, does not lower the tick.
\<close>

lemma scast_nonneg:
  fixes a :: c_int
  assumes "0 \<le> sint a"
  shows "uint (scast a :: uint64_t) = sint a"
proof -
  have "sint a < 2 ^ 31" using sint_lt [of a] by simp
  then have "sint a < 2 ^ 64" by simp
  with assms have m: "take_bit LENGTH(64) (sint a) = sint a"
    by (intro take_bit_int_eq_self) simp_all
  have "uint (word_of_int (sint a) :: uint64_t) = take_bit LENGTH(64) (sint a)"
    by (rule uint_word_of_int_eq)
  then have "uint (word_of_int (sint a) :: uint64_t) = sint a" using m by (rule trans)
  then show ?thesis by (simp only: scast_eq)
qed

lemma update_tick_forward:
  assumes "decode_variable_length track = Inr (n, track')"
    and "0 \<le> sint (tick track)" and "0 \<le> sint n" and "sint (tick track) + sint n < 2 ^ 31"
  shows "update_tick track = Inr (track'\<lparr>tick := tick track + n\<rparr>)
     \<and> (scast (tick track) :: uint64_t) \<le> scast (tick track + n)"
proof -
  have k: "tick track' = tick track" using assms(1) by (rule decode_variable_length_tick)
  have "signed_take_bit 31 (sint (tick track) + sint n) = sint (tick track) + sint n"
    using assms(2,3,4) by (intro signed_take_bit_int_eq_self) simp_all
  then have s: "sint (tick track + n) = sint (tick track) + sint n"
    by (simp add: sint_word_add)
  have "uint (scast (tick track) :: uint64_t) \<le> uint (scast (tick track + n) :: uint64_t)"
    using assms(2,3) by (simp add: scast_nonneg s)
  then have "(scast (tick track) :: uint64_t) \<le> scast (tick track + n)"
    by (simp add: word_le_def)
  then show ?thesis using assms(1) k by (simp add: update_tick_def)
qed

text \<open>
  C3. Every callback invocation is logged twice: in \<open>calls\<close> with the value of the
  global tick at that moment, in \<open>call_ticks\<close> with the tick of the event's own track.
  For every input, and whatever prefix of the session is looked at, the global ticks logged
  are in non-decreasing order. As long as no \<open>update_tick\<close> of the session has lowered
  a track's tick, every event is emitted when the global tick is equal to the tick of its
  own track, so the events' own ticks are in non-decreasing order as well. One pass of the
  for loop leaves the global tick alone, tags every event it emits with that tick, and ends
  with \<open>active_tracks\<close> holding exactly the tracks that still have data, all of them
  strictly later than the global tick; the global tick then advances by exactly the minimum
  over these tracks of \<open>track.tick - tick\<close>, which moves it forward. Two tracks with
  events at ticks 0, 10, 20 and at 0, 5, 15 yield the ticks 0, 0, 5, 10, 15, 20.
\<close>

theorem events_emitted_in_tick_order_unless_a_tick_decreases:
  "sorted (map fst (calls (snd (play_midi fuel trks td on_cb off_cb))))
   \<and> (\<not> tick_decreased (snd (play_midi fuel trks td on_cb off_cb)) \<longrightarrow>
        call_ticks (snd (play_midi fuel trks td on_cb off_cb))
          = map fst (calls (snd (play_midi fuel trks td on_cb off_cb)))
        \<and> sorted (call_ticks (snd (play_midi fuel trks td on_cb off_cb))))
   \<and> (for_tracks n td on_cb off_cb [0 ..< length (tracks s)] s [] = (Finished, s', active) \<longrightarrow>
        tick_p s' = tick_p s
        \<and> (\<exists>cs. calls s' = calls s @ map (Pair (tick_p s)) cs)
        \<and> set active = {i. i < length (tracks s') \<and> data (tracks s' ! i) \<noteq> None}
        \<and> (\<forall>i \<in> set active. tick_p s' < scast (tick (tracks s' ! i)))
        \<and> (active \<noteq> [] \<longrightarrow>
              next_delta_tick s' active
                = Min ((\<lambda>i. scast (tick (tracks s' ! i)) - tick_p s') ` set active)
              \<and> tick_p s' < tick_p s' + next_delta_tick s' active))
   \<and> fst (load_and_play 6
        [ [0x00, 0x90, 0x3C, 0x40, 0x0A, 0x90, 0x3E, 0x40, 0x0A, 0x90, 0x40, 0x40, 0x00, 0xFF, 0x2F, 0x00],
          [0x00, 0x91, 0x3C, 0x40, 0x05, 0x91, 0x3E, 0x40, 0x0A, 0x91, 0x40, 0x40, 0x00, 0xFF, 0x2F, 0x00] ]
        (replicate 256 0) 480 True True) = Finished
   \<and> \<not> tick_decreased (snd (load_and_play 6
        [ [0x00, 0x90, 0x3C, 0x40, 0x0A, 0x90, 0x3E, 0x40, 0x0A, 0x90, 0x40, 0x40, 0x00, 0xFF, 0x2F, 0x00],
          [0x00, 0x91, 0x3C, 0x40, 0x05, 0x91, 0x3E, 0x40, 0x0A, 0x91, 0x40, 0x40, 0x00, 0xFF, 0x2F, 0x00] ]
        (replicate 256 0) 480 True True))
   \<and> call_ticks (snd (load_and_play 6
        [ [0x00, 0x90, 0x3C, 0x40, 0x0A, 0x90, 0x3E, 0x40, 0x0A, 0x90, 0x40, 0x40, 0x00, 0xFF, 0x2F, 0x00],
          [0x00, 0x91, 0x3C, 0x40, 0x05, 0x91, 0x3E, 0x40, 0x0A, 0x91, 0x40, 0x40, 0x00, 0xFF, 0x2F, 0x00] ]
        (replicate 256 0) 480 True True)) = [0, 0, 5, 10, 15, 20]
   \<and> map fst (calls (snd (load_and_play 6
        [ [0x00, 0x90, 0x3C, 0x40, 0x0A, 0x90, 0x3E, 0x40, 0x0A, 0x90, 0x40, 0x40, 0x00, 0xFF, 0x2F, 0x00],
          [0x00, 0x91, 0x3C, 0x40, 0x05, 0x91, 0x3E, 0x40, 0x0A, 0x91, 0x40, 0x40, 0x00, 0xFF, 0x2F, 0x00] ]
        (replicate 256 0) 480 True True))) = [0, 0, 5, 10, 15, 20]"
proof -
  let ?r = "snd (play_midi fuel trks td on_cb off_cb)"
  have "in_tick_order (init_player trks)"
    by (simp add: in_tick_order_def init_player_def)
  then have "in_tick_order ?r"
    unfolding play_midi_def by (rule play_loop_in_tick_order)
  then have a: "sorted (map fst (calls ?r))"
    by (simp add: in_tick_order_def)
  have "ticks_agree (init_player trks)"
    by (simp add: ticks_agree_def init_player_def)
  then have "ticks_agree ?r"
    unfolding play_midi_def by (rule play_loop_ticks_agree)
  then have "call_ticks ?r = map fst (calls ?r)" if "\<not> tick_decreased ?r"
    using that by (simp add: ticks_agree_def)
  with a have a': "\<not> tick_decreased ?r \<longrightarrow>
      call_ticks ?r = map fst (calls ?r) \<and> sorted (call_ticks ?r)"
    by simp
  have b: "tick_p s' = tick_p s
        \<and> (\<exists>cs. calls s' = calls s @ map (Pair (tick_p s)) cs)
        \<and> set active = {i. i < length (tracks s') \<and> data (tracks s' ! i) \<noteq> None}
        \<and> (\<forall>i \<in> set active. tick_p s' < scast (tick (tracks s' ! i)))
        \<and> (active \<noteq> [] \<longrightarrow>
              next_delta_tick s' active
                = Min ((\<lambda>i. scast (tick (tracks s' ! i)) - tick_p s') ` set active)
              \<and> tick_p s' < tick_p s' + next_delta_tick s' active)"
    if run: "for_tracks n td on_cb off_cb [0 ..< length (tracks s)] s [] = (Finished, s', active)"
  proof -
    note it = scheduler_iteration [OF run]
    have "tick_p s' = tick_p s" "\<exists>cs. calls s' = calls s @ map (Pair (tick_p s)) cs"
      using it(1) by (simp_all add: touches_def)
    then show ?thesis using it(2) it(3) it(4) by blast
  qed
  have c: "fst (load_and_play 6
        [ [0x00, 0x90, 0x3C, 0x40, 0x0A, 0x90, 0x3E, 0x40, 0x0A, 0x90, 0x40, 0x40, 0x00, 0xFF, 0x2F, 0x00],
          [0x00, 0x91, 0x3C, 0x40, 0x05, 0x91, 0x3E, 0x40, 0x0A, 0x91, 0x40, 0x40, 0x00, 0xFF, 0x2F, 0x00] ]
        (replicate 256 0) 480 True True) = Finished
   \<and> \<not> tick_decreased (snd (load_and_play 6
        [ [0x00, 0x90, 0x3C, 0x40, 0x0A, 0x90, 0x3E, 0x40, 0x0A, 0x90, 0x40, 0x40, 0x00, 0xFF, 0x2F, 0x00],
          [0x00, 0x91, 0x3C, 0x40, 0x05, 0x91, 0x3E, 0x40, 0x0A, 0x91, 0x40, 0x40, 0x00, 0xFF, 0x2F, 0x00] ]
        (replicate 256 0) 480 True True))
   \<and> call_ticks (snd (load_and_play 6
        [ [0x00, 0x90, 0x3C, 0x40, 0x0A, 0x90, 0x3E, 0x40, 0x0A, 0x90, 0x40, 0x40, 0x00, 0xFF, 0x2F, 0x00],
          [0x00, 0x91, 0x3C, 0x40, 0x05, 0x91, 0x3E, 0x40, 0x0A, 0x91, 0x40, 0x40, 0x00, 0xFF, 0x2F, 0x00] ]
        (replicate 256 0) 480 True True)) = [0, 0, 5, 10, 15, 20]
   \<and> map fst (calls (snd (load_and_play 6
        [ [0x00, 0x90, 0x3C, 0x40, 0x0A, 0x90, 0x3E, 0x40, 0x0A, 0x90, 0x40, 0x40, 0x00, 0xFF, 0x2F, 0x00],
          [0x00, 0x91, 0x3C, 0x40, 0x05, 0x91, 0x3E, 0x40, 0x0A, 0x91, 0x40, 0x40, 0x00, 0xFF, 0x2F, 0x00] ]
        (replicate 256 0) 480 True True))) = [0, 0, 5, 10, 15, 20]"
    by code_simp
  show ?thesis using a a' b c by blast
qed

theorem events_emitted_in_tick_order_unless_a_tick_decreases_witness:
  "\<not> tick_decreased (snd (play_midi 6 [merge_track_a, merge_track_b] 480 True True))
   \<and> call_ticks (snd (play_midi 6 [merge_track_a, merge_track_b] 480 True True))
       = map fst (calls (snd (play_midi 6 [merge_track_a, merge_track_b] 480 True True)))
   \<and> sorted (call_ticks (snd (play_midi 6 [merge_track_a, merge_track_b] 480 True True)))
   \<and> call_ticks (snd (play_midi 6 [merge_track_a, merge_track_b] 480 True True))
       = [0, 0, 5, 10, 15, 20]
   \<and> fst (for_tracks 2 480 True True [0 ..< 2] (init_player [merge_track_a, merge_track_b]) [])
     = Finished
   \<and> snd (snd (for_tracks 2 480 True True [0 ..< 2] (init_player [merge_track_a, merge_track_b]) []))
     = [0, 1]
   \<and> map fst (calls (fst (snd (for_tracks 2 480 True True [0 ..< 2]
         (init_player [merge_track_a, merge_track_b]) [])))) = [0, 0]
   \<and> next_delta_tick (fst (snd (for_tracks 2 480 True True [0 ..< 2]
         (init_player [merge_track_a, merge_track_b]) []))) [0, 1] = 5
   \<and> tick_p (fst (snd (for_tracks 2 480 True True [0 ..< 2]
         (init_player [merge_track_a, merge_track_b]) []))) = 0
   \<and> tick_p (fst (snd (for_tracks 2 480 True True [0 ..< 2]
         (init_player [merge_track_a, merge_track_b]) [])))
       < tick_p (fst (snd (for_tracks 2 480 True True [0 ..< 2]
         (init_player [merge_track_a, merge_track_b]) [])))
         + next_delta_tick (fst (snd (for_tracks 2 480 True True [0 ..< 2]
         (init_player [merge_track_a, merge_track_b]) []))) [0, 1]"
proof -
  let ?s = "init_player [merge_track_a, merge_track_b]"
  let ?r = "for_tracks 2 480 True True [0 ..< 2] ?s []"
  let ?p = "snd (play_midi 6 [merge_track_a, merge_track_b] 480 True True)"
  have e: "fst ?r = Finished" "snd (snd ?r) = [0, 1]"
    "map fst (calls (fst (snd ?r))) = [0, 0]"
    "next_delta_tick (fst (snd ?r)) [0, 1] = 5"
    by code_simp+
  have f: "\<not> tick_decreased ?p" "call_ticks ?p = [0, 0, 5, 10, 15, 20]"
    by code_simp+
  have l: "length (tracks ?s) = 2" by (simp add: init_player_def)
  have run: "for_tracks 2 480 True True [0 ..< length (tracks ?s)] ?s []
      = (Finished, fst (snd ?r), [0, 1])"
    using e(1,2) by (simp add: l prod_eq_iff)
  have ne: "[0, 1 :: nat] \<noteq> []" by simp
  from events_emitted_in_tick_order_unless_a_tick_decreases [where fuel = 6
      and trks = "[merge_track_a, merge_track_b]" and n = 2 and td = 480 and on_cb = True
      and off_cb = True and s = ?s and s' = "fst (snd ?r)" and active = "[0, 1]"]
    run ne f(1)
  have h: "call_ticks ?p = map fst (calls ?p) \<and> sorted (call_ticks ?p)
      \<and> tick_p (fst (snd ?r)) = tick_p ?s
      \<and> tick_p (fst (snd ?r)) < tick_p (fst (snd ?r)) + next_delta_tick (fst (snd ?r)) [0, 1]"
    by blast
  from h have h1: "call_ticks ?p = map fst (calls ?p)" by (rule conjunct1)
  from h have h2: "sorted (call_ticks ?p)" by blast
  from h have h3: "tick_p (fst (snd ?r)) = tick_p ?s" by blast
  from h have h4:
    "tick_p (fst (snd ?r)) < tick_p (fst (snd ?r)) + next_delta_tick (fst (snd ?r)) [0, 1]"
    by blast
  have "tick_p ?s = 0" by (simp add: init_player_def)
  with h3 have h5: "tick_p (fst (snd ?r)) = 0" by (rule trans)
  show ?thesis by (intro conjI; fact e f h1 h2 h4 h5)
qed

text \<open>
  C3, as stated, holds for every multi-track input. In the first track below an event at
  tick 10 is followed by the delta-time \<open>8F FF FF FF 7F\<close>, which
  \<open>decode_variable_length\<close> decodes to \<open>-1\<close> (the fifth \<open>result << 7\<close> shifts into
  the sign bit of the \<open>int\<close>): the track's tick becomes 9, the track is due at once, and
  its next event, of tick 9, is emitted after the event of tick 10, while the global tick
  is still 10.
\<close>

theorem event_emitted_after_a_later_event_when_a_tick_decreases:
  "fst (load_and_play 6
        [ [0x0A, 0x90, 0x3C, 0x40, 0x8F, 0xFF, 0xFF, 0xFF, 0x7F, 0x90, 0x3E, 0x40, 0x00, 0xFF, 0x2F, 0x00],
          [0x00, 0xFF, 0x2F, 0x00] ]
        (replicate 256 0) 480 True True) = Finished
   \<and> call_ticks (snd (load_and_play 6
        [ [0x0A, 0x90, 0x3C, 0x40, 0x8F, 0xFF, 0xFF, 0xFF, 0x7F, 0x90, 0x3E, 0x40, 0x00, 0xFF, 0x2F, 0x00],
          [0x00, 0xFF, 0x2F, 0x00] ]
        (replicate 256 0) 480 True True)) = [10, 9]
   \<and> calls (snd (load_and_play 6
        [ [0x0A, 0x90, 0x3C, 0x40, 0x8F, 0xFF, 0xFF, 0xFF, 0x7F, 0x90, 0x3E, 0x40, 0x00, 0xFF, 0x2F, 0x00],
          [0x00, 0xFF, 0x2F, 0x00] ]
        (replicate 256 0) 480 True True))
       = [(10, NoteOnCall 0x40 0 0x3C), (10, NoteOnCall 0x40 0 0x3E)]
   \<and> \<not> sorted (call_ticks (snd (load_and_play 6
        [ [0x0A, 0x90, 0x3C, 0x40, 0x8F, 0xFF, 0xFF, 0xFF, 0x7F, 0x90, 0x3E, 0x40, 0x00, 0xFF, 0x2F, 0x00],
          [0x00, 0xFF, 0x2F, 0x00] ]
        (replicate 256 0) 480 True True)))"
  by code_simp

section \<open>The Set-Tempo computation\<close>

lemma tempo_bytes:
  fixes b0 b1 b2 :: uint8_t
  shows "(scast (push_bit 16 (ucast b0) OR push_bit 8 (ucast b1) OR ucast b2 :: c_int) :: uint64_t)
     = of_nat (65536 * unat b0 + 256 * unat b1 + unat b2)"
proof -
  let ?t = "65536 * unat b0 + 256 * unat b1 + unat b2"
  have d1: "push_bit 8 (ucast b1 :: c_int) AND ucast b2 = 0"
    by (rule bit_eqI) (auto simp add: bit_simps dest: bit_imp_le_length)
  have d2: "push_bit 16 (ucast b0 :: c_int) AND (push_bit 8 (ucast b1) OR ucast b2) = 0"
    by (rule bit_eqI) (auto simp add: bit_simps dest: bit_imp_le_length)
  have "(push_bit 16 (ucast b0) OR push_bit 8 (ucast b1) OR ucast b2 :: c_int)
      = push_bit 16 (ucast b0) + (push_bit 8 (ucast b1) + ucast b2)"
    using disjunctive_add_eq_or [OF d1] disjunctive_add_eq_or [OF d2] by simp
  also have "\<dots> = of_nat (unat b0) * 65536 + (of_nat (unat b1) * 256 + of_nat (unat b2))"
    by (simp add: push_bit_eq_mult)
  also have "\<dots> = of_nat ?t"
    by simp
  finally have v: "(push_bit 16 (ucast b0) OR push_bit 8 (ucast b1) OR ucast b2 :: c_int) = of_nat ?t" .
  have "unat b0 < 256" "unat b1 < 256" "unat b2 < 256"
    using unsigned_less [of b0] unsigned_less [of b1] unsigned_less [of b2] by simp_all
  then have "?t < 2 ^ 28" by simp
  then have "sint (of_nat ?t :: c_int) = int ?t" by (rule sint_small)
  then show ?thesis by (simp only: v scast_eq) simp
qed


text \<open>
  For every division other than 0 a Set-Tempo event does what C5 says: the tempo is the
  big-endian value of the first three bytes of the scratch buffer, and the multiplier is
  the double quotient of ten times the tempo by the division, or 1 when that is smaller.
\<close>

lemma set_tempo_multiplier:
  assumes "ucast (drop_bit 8 (message track) AND 0xFF) = (0x51 :: uint8_t)"
    and "long_msg track = b0 # b1 # b2 # rest"
    and "time_div \<noteq> 0"
  shows "process_meta_event track m b time_div =
     Inr (track,
          Finite (max 1 (round_double
            (double_of_uint64 (of_nat ((65536 * unat b0 + 256 * unat b1 + unat b2) * 10))
               / double_of_uint16 time_div))),
          of_nat (65536 * unat b0 + 256 * unat b1 + unat b2))"
proof -
  let ?t = "65536 * unat b0 + 256 * unat b1 + unat b2"
  have r: "rd (long_msg track) 0 = Inr b0" "rd (long_msg track) 1 = Inr b1"
    "rd (long_msg track) 2 = Inr b2"
    using assms(2) by (simp_all add: rd_def)
  have nz: "double_of_uint16 time_div \<noteq> 0"
    using assms(3) by (simp add: double_of_uint16_def unsigned_eq_0_iff)
  have ten: "(of_nat ?t :: uint64_t) * 10 = of_nat (?t * 10)"
    by simp
  show ?thesis
    unfolding process_meta_event_def Let_def
    by (simp only: assms(1) r tempo_bytes ten sum.case if_True)
      (simp add: double_div_def nz max_def not_less)
qed

lemma set_tempo_at_division_480:
  "process_meta_event tempo_track (Finite 0) 500000 480
     = Inr (tempo_track, Finite (5726623061333333 / 2 ^ 39), 500000)
   \<and> round_double (500000 * 10 / 480) = 5726623061333333 / 2 ^ 39
   \<and> \<bar>5726623061333333 / 2 ^ 39 - 500000 * 10 / 480\<bar> < (1 / 10 ^ 12 :: rat)
   \<and> process_meta_event zero_tempo_track (Finite 0) 500000 480
     = Inr (zero_tempo_track, Finite 1, 0)"
  by code_simp

text \<open>
  C5. The claim: every Set-Tempo event sets the multiplier to (tempo * 10) / division
  clamped to a minimum of 1, and a tempo of 0 yields the multiplier 1. The track
  \<open>00 FF 51 03 00 00 00 60 90 3C 40 00 FF 2F 00\<close> sets the tempo 0; played in a file
  whose division is 0, the quotient \<open>0.0 / 0.0\<close> is a NaN, the comparison
  \<open>multiplier < 1.0\<close> is false for it, and the multiplier used for the next delay is
  that NaN. \<open>zero_tempo_track\<close> is the track when \<open>process_meta_event\<close> is called.
\<close>

theorem zero_tempo_at_division_zero_is_not_clamped:
  "process_meta_event zero_tempo_track (Finite 0) 500000 0 = Inr (zero_tempo_track, NaN, 0)
   \<and> load_track [0x00, 0xFF, 0x51, 0x03, 0x00, 0x00, 0x00, 0x60, 0x90, 0x3C, 0x40, 0x00, 0xFF, 0x2F, 0x00]
         (replicate 256 0)
       = Inr (zero_tempo_track\<lparr>offset := 1, message := 0, temp := 0, long_msg_len := 0\<rparr>)
   \<and> update_command (zero_tempo_track\<lparr>offset := 1, message := 0, temp := 0, long_msg_len := 0\<rparr>)
       = Inr (zero_tempo_track\<lparr>offset := 2, message := 0xFF, temp := 0, long_msg_len := 0\<rparr>)
   \<and> update_message (zero_tempo_track\<lparr>offset := 2, message := 0xFF, temp := 0, long_msg_len := 0\<rparr>)
       = Inr zero_tempo_track
   \<and> delays (snd (load_and_play 3
         [ [0x00, 0xFF, 0x51, 0x03, 0x00, 0x00, 0x00, 0x60, 0x90, 0x3C, 0x40, 0x00, 0xFF, 0x2F, 0x00] ]
         (replicate 256 0) 0 True True))
       = [(0x60, NaN)]
   \<and> NaN \<noteq> Finite 1"
  by code_simp

end
